theory Spec2Isabelle
  imports Main
begin

section \<open>Machine integers, handles and outcomes\<close>

text \<open>
  All three programs declare their coordinates, handles, heights and the allocation
  counter as \<open>int16_t\<close>.  C evaluates every arithmetic expression and every comparison
  on \<open>int\<close> after promotion, so \<open>nodes[x].high + 1\<close> never wraps inside a comparison;
  a value only wraps when it is stored back into an \<open>int16_t\<close> object or passed as an
  \<open>int16_t\<close> argument.  The model therefore keeps values as \<open>int\<close> and applies
  \<open>i16\<close> at exactly those stores.
\<close>

definition i16 :: "int \<Rightarrow> int" where
  "i16 v = (v + 32768) mod 65536 - 32768"

text \<open>\<open>#define T INT16_MAX\<close>: the handle that stands for the empty tree.\<close>

definition T :: int where
  "T = 32767"

text \<open>\<open>#define MIN INT16_MIN\<close> (avl\_tree\_ref.c); \<open>MIN\<close> is taken in HOL.\<close>

definition INT16_MIN :: int where
  "INT16_MIN = - 32768"

text \<open>
  A failed \<open>assert\<close> aborts the program; \<open>err(0, "Node.balance")\<close> prints and exits.
  Both end the run and are results of the model.  A recursion or loop that follows
  handles for ever is the value \<open>None\<close>.
\<close>

datatype error = AssertionFailed | ErrExit

definition bindr :: "(error + 'a) option \<Rightarrow> ('a \<Rightarrow> (error + 'b) option) \<Rightarrow> (error + 'b) option" where
  "bindr m f = Option.bind m (\<lambda>r. case r of Inl e \<Rightarrow> Some (Inl e) | Inr v \<Rightarrow> f v)"

definition ok :: "'a \<Rightarrow> (error + 'a) option" where
  "ok v = Some (Inr v)"

definition fail :: "error \<Rightarrow> (error + 'a) option" where
  "fail e = Some (Inl e)"

lemma bindr_mono [partial_function_mono]:
  assumes mf: "mono_option B" and mg: "\<And>y. mono_option (\<lambda>f. C y f)"
  shows "mono_option (\<lambda>f. bindr (B f) (\<lambda>y. C y f))"
  unfolding bindr_def
proof (rule bind_mono [OF mf])
  fix r
  show "mono_option (\<lambda>f. case r of Inl e \<Rightarrow> Some (Inl e) | Inr v \<Rightarrow> C v f)"
    by (cases r) (simp_all add: mg option.const_mono)
qed

lemma bindr_ok [simp]: "bindr (ok v) f = f v"
  by (simp add: bindr_def ok_def)

lemma bindr_Some_Inr [simp]: "bindr (Some (Inr v)) f = f v"
  by (simp add: bindr_def)

lemma bindr_fail [simp]: "bindr (fail e) f = fail e"
  by (simp add: bindr_def fail_def)

lemma bindr_Some_Inl [simp]: "bindr (Some (Inl e)) f = Some (Inl e)"
  by (simp add: bindr_def)

lemma bindr_None [simp]: "bindr None f = None"
  by (simp add: bindr_def)

text \<open>
  \<open>blit(start, end)\<close> is the callback of the DIET insertion.  The model records every
  call, in call order, as the pair of its arguments; the integers a call covers are
  those the loop \<open>for (i = start; i <= end; ++i)\<close> visits.  \<open>cover\<close> is the set of
  integers a list of closed ranges covers: of \<open>blit\<close> calls, of stored intervals or of
  inserted ranges.
\<close>

definition cover :: "(int \<times> int) list \<Rightarrow> int set" where
  "cover tr = (\<Union>(a, b)\<in>set tr. {a..b})"

section \<open>diet3.c: the balanced DIET\<close>

record node3 =
  n3_start :: int
  n3_end :: int
  n3_height :: int
  n3_left :: int
  n3_right :: int

text \<open>
  The globals \<open>len\<close>, \<open>root\<close> and \<open>nodes[N]\<close>, and the trace of the \<open>blit\<close> calls.
  The array is a function on indices; the arena is the indices \<open>0 \<le> i < N\<close>.
\<close>

record diet3 =
  d3_len :: int
  d3_root :: int
  d3_nodes :: "int \<Rightarrow> node3"
  d3_blits :: "(int \<times> int) list"

definition N3 :: int where
  "N3 = 1000"

definition bal_const :: int where
  "bal_const = 1"

definition d3_blit :: "diet3 \<Rightarrow> int \<Rightarrow> int \<Rightarrow> diet3" where
  "d3_blit st start end = st\<lparr>d3_blits := d3_blits st @ [(start, end)]\<rparr>"

definition d3_height :: "diet3 \<Rightarrow> int \<Rightarrow> int" where
  "d3_height st tree = (if tree = T then 0 else n3_height (d3_nodes st tree))"

definition d3_height_join :: "diet3 \<Rightarrow> int \<Rightarrow> int \<Rightarrow> int" where
  "d3_height_join st left right = i16 (1 + max (d3_height st left) (d3_height st right))"

definition d3_new_node :: "diet3 \<Rightarrow> int \<Rightarrow> int \<Rightarrow> int \<Rightarrow> int \<Rightarrow> int \<Rightarrow> (error + int \<times> diet3) option" where
  "d3_new_node st start end height left right =
     (let n = d3_len st in
      if \<not> n < N3 then fail AssertionFailed
      else ok (n, st\<lparr>d3_len := i16 (d3_len st + 1),
                     d3_nodes := (d3_nodes st)(n := \<lparr>n3_start = start, n3_end = end,
                        n3_height = height, n3_left = left, n3_right = right\<rparr>)\<rparr>))"

definition d3_create :: "diet3 \<Rightarrow> int \<Rightarrow> int \<Rightarrow> int \<Rightarrow> int \<Rightarrow> (error + int \<times> diet3) option" where
  "d3_create st start end l r = d3_new_node st start end (d3_height_join st l r) l r"

text \<open>
  Where two \<open>create\<close> calls are arguments of a third, C leaves their order open; the
  model runs them left to right.  The order only decides which of the two fresh nodes
  gets the smaller handle.
\<close>

definition d3_balance :: "diet3 \<Rightarrow> int \<Rightarrow> int \<Rightarrow> int \<Rightarrow> int \<Rightarrow> (error + int \<times> diet3) option" where
  "d3_balance st start end l r =
     (let hl = d3_height st l; hr = d3_height st r in
      if hl > hr + bal_const then
        (if l = T then fail ErrExit
         else
           let ls = n3_start (d3_nodes st l); le = n3_end (d3_nodes st l);
               ll = n3_left (d3_nodes st l); lr = n3_right (d3_nodes st l) in
           if d3_height st ll \<ge> d3_height st lr then
             bindr (d3_create st start end lr r) (\<lambda>(c, st1). d3_create st1 ls le ll c)
           else
             (if lr = T then fail ErrExit
              else
                let lrs = n3_start (d3_nodes st lr); lre = n3_end (d3_nodes st lr);
                    lrl = n3_left (d3_nodes st lr); lrr = n3_right (d3_nodes st lr) in
                bindr (d3_create st ls le ll lrl) (\<lambda>(a, st1).
                bindr (d3_create st1 start end lrr r) (\<lambda>(b, st2).
                d3_create st2 lrs lre a b))))
      else if hr > hl + bal_const then
        (if r = T then fail ErrExit
         else
           let rs = n3_start (d3_nodes st r); re = n3_end (d3_nodes st r);
               rl = n3_left (d3_nodes st r); rr = n3_right (d3_nodes st r) in
           if d3_height st rr \<ge> d3_height st rl then
             bindr (d3_create st start end l rl) (\<lambda>(c, st1). d3_create st1 rs re c rr)
           else
             (if rl = T then fail ErrExit
              else
                let rls = n3_start (d3_nodes st rl); rle = n3_end (d3_nodes st rl);
                    rll = n3_left (d3_nodes st rl); rlr = n3_right (d3_nodes st rl) in
                bindr (d3_create st start end l rll) (\<lambda>(a, st1).
                bindr (d3_create st1 rs re rlr rr) (\<lambda>(b, st2).
                d3_create st2 rls rle a b))))
      else
        (let h = (if hl \<ge> hr then i16 (hl + 1) else i16 (hr + 1)) in
         d3_new_node st start end h l r))"

partial_function (option) d3_add :: "diet3 \<Rightarrow> int \<Rightarrow> bool \<Rightarrow> int \<Rightarrow> int \<Rightarrow> (error + int \<times> diet3) option" where
  "d3_add st tree left start end =
     (if tree = T then d3_new_node st start end 1 T T
      else
        let s = n3_start (d3_nodes st tree); e = n3_end (d3_nodes st tree);
            l = n3_left (d3_nodes st tree); r = n3_right (d3_nodes st tree) in
        if left then
          bindr (d3_add st l left start end) (\<lambda>(a, st1). d3_balance st1 s e a r)
        else
          bindr (d3_add st r left start end) (\<lambda>(a, st1). d3_balance st1 s e l a))"

partial_function (option) d3_join :: "diet3 \<Rightarrow> int \<Rightarrow> int \<Rightarrow> int \<Rightarrow> int \<Rightarrow> (error + int \<times> diet3) option" where
  "d3_join st start end l r =
     (if l = T then d3_add st r True start end
      else if r = T then d3_add st l False start end
      else
        let ls = n3_start (d3_nodes st l); le = n3_end (d3_nodes st l);
            lh = n3_height (d3_nodes st l);
            ll = n3_left (d3_nodes st l); lr = n3_right (d3_nodes st l);
            rs = n3_start (d3_nodes st r); re = n3_end (d3_nodes st r);
            rh = n3_height (d3_nodes st r);
            rl = n3_left (d3_nodes st r); rr = n3_right (d3_nodes st r) in
        if lh > rh + bal_const then
          bindr (d3_join st start end lr r) (\<lambda>(j, st1). d3_balance st1 ls le ll j)
        else if rh > lh + bal_const then
          bindr (d3_join st start end l rl) (\<lambda>(j, st1). d3_balance st1 rs re j rr)
        else d3_create st start end l r)"

text \<open>
  \<open>find_del_left\<close> and \<open>find_del_right\<close> return through the out-parameters
  \<open>outs\<close>/\<open>oute\<close> and \<open>outl\<close>/\<open>outr\<close>: the model returns the pair.
\<close>

partial_function (option) d3_find_del_left :: "diet3 \<Rightarrow> int \<Rightarrow> int \<Rightarrow> int \<Rightarrow> (error + (int \<times> int) \<times> diet3) option" where
  "d3_find_del_left st tree start def_blit_end =
     (if tree = T then ok ((start, T), d3_blit st start def_blit_end)
      else
        let s = n3_start (d3_nodes st tree); e = n3_end (d3_nodes st tree);
            l = n3_left (d3_nodes st tree); r = n3_right (d3_nodes st tree) in
        if start > e + 1 then
          bindr (d3_find_del_left st r start def_blit_end) (\<lambda>((news, newr), st1).
          bindr (d3_join st1 s e l newr) (\<lambda>(j, st2). ok ((news, j), st2)))
        else if start < s then d3_find_del_left st l start def_blit_end
        else ok ((s, l), d3_blit st (i16 (e + 1)) def_blit_end))"

partial_function (option) d3_find_del_right :: "diet3 \<Rightarrow> int \<Rightarrow> int \<Rightarrow> int \<Rightarrow> (error + (int \<times> int) \<times> diet3) option" where
  "d3_find_del_right st tree end def_blit_start =
     (if tree = T then ok ((end, T), d3_blit st def_blit_start end)
      else
        let s = n3_start (d3_nodes st tree); e = n3_end (d3_nodes st tree);
            l = n3_left (d3_nodes st tree); r = n3_right (d3_nodes st tree) in
        if end < s - 1 then
          bindr (d3_find_del_right st l end def_blit_start) (\<lambda>((newe, newl), st1).
          bindr (d3_join st1 s e newl r) (\<lambda>(j, st2). ok ((newe, j), st2)))
        else if end > e then d3_find_del_right st r end def_blit_start
        else ok ((e, r), d3_blit st def_blit_start (i16 (s - 1))))"

partial_function (option) d3_insert_range :: "diet3 \<Rightarrow> int \<Rightarrow> int \<Rightarrow> int \<Rightarrow> (error + int \<times> diet3) option" where
  "d3_insert_range st tree start end =
     (if tree = T then d3_new_node (d3_blit st start end) start end 1 T T
      else
        let s = n3_start (d3_nodes st tree); e = n3_end (d3_nodes st tree);
            l = n3_left (d3_nodes st tree); r = n3_right (d3_nodes st tree) in
        if end < s - 1 then
          bindr (d3_insert_range st l start end) (\<lambda>(new, st1). d3_join st1 s e new r)
        else if start > e + 1 then
          bindr (d3_insert_range st r start end) (\<lambda>(new, st1). d3_join st1 s e l new)
        else
          let def_blit_start = i16 (e + 1); def_blit_end = i16 (s - 1) in
          bindr (if start \<ge> s then ok ((s, l), st)
                 else d3_find_del_left st l start def_blit_end) (\<lambda>((news, newl), st1).
          bindr (if end \<le> e then ok ((e, r), st1)
                 else d3_find_del_right st1 r end def_blit_start) (\<lambda>((newe, newr), st2).
          d3_join st2 news newe newl newr)))"

declare d3_add.simps [code]
declare d3_join.simps [code]
declare d3_find_del_left.simps [code]
declare d3_find_del_right.simps [code]
declare d3_insert_range.simps [code]

text \<open>
  \<open>insert\<close> stores the handle \<open>insert_range\<close> returns in \<open>root\<close>.  Its call of
  \<open>debug_insert\<close> belongs to the test harness (printing and the checkers) and is left
  out.
\<close>

definition d3_insert :: "diet3 \<Rightarrow> int \<Rightarrow> int \<Rightarrow> (error + diet3) option" where
  "d3_insert st start end =
     bindr (d3_insert_range st (d3_root st) start end) (\<lambda>(t, st1). ok (st1\<lparr>d3_root := t\<rparr>))"

text \<open>The state after \<open>clear()\<close>; the static array starts zeroed.\<close>

definition d3_clear :: diet3 where
  "d3_clear = \<lparr>d3_len = 0, d3_root = T,
     d3_nodes = (\<lambda>_. \<lparr>n3_start = 0, n3_end = 0, n3_height = 0, n3_left = 0, n3_right = 0\<rparr>),
     d3_blits = []\<rparr>"

text \<open>
  The checkers of the source walk the tree with \<open>gather_indices\<close>, which appends the
  handles in preorder to \<open>values[(*len)++]\<close>, and compare two nodes with
  \<open>overlapping_or_adjacent\<close>.
\<close>

partial_function (option) d3_gather_indices :: "diet3 \<Rightarrow> int \<Rightarrow> int list \<Rightarrow> int list option" where
  "d3_gather_indices st x values =
     (let v1 = values @ [x] in
      Option.bind (if n3_left (d3_nodes st x) \<noteq> T
                   then d3_gather_indices st (n3_left (d3_nodes st x)) v1 else Some v1)
        (\<lambda>v2. if n3_right (d3_nodes st x) \<noteq> T
               then d3_gather_indices st (n3_right (d3_nodes st x)) v2 else Some v2))"

declare d3_gather_indices.simps [code]

definition d3_overlapping_or_adjacent :: "diet3 \<Rightarrow> int \<Rightarrow> int \<Rightarrow> bool" where
  "d3_overlapping_or_adjacent st x y =
     (let x0 = n3_start (d3_nodes st x); x1 = n3_end (d3_nodes st x);
          y0 = n3_start (d3_nodes st y); y1 = n3_end (d3_nodes st y) in
      x0 \<le> y1 + 1 \<and> y0 \<le> x1 + 1)"

text \<open>
  The handles of the stored nodes: what \<open>gather_indices(root, \<dots>)\<close> collects, and
  nothing for the empty tree.  The intervals stored are those of these nodes, and the
  integers stored are the ones they contain.
\<close>

definition d3_stored :: "diet3 \<Rightarrow> int list option" where
  "d3_stored st = (if d3_root st = T then Some [] else d3_gather_indices st (d3_root st) [])"

definition d3_interval :: "diet3 \<Rightarrow> int \<Rightarrow> int \<times> int" where
  "d3_interval st x = (n3_start (d3_nodes st x), n3_end (d3_nodes st x))"

definition d3_intervals :: "diet3 \<Rightarrow> (int \<times> int) list option" where
  "d3_intervals st = map_option (map (d3_interval st)) (d3_stored st)"

text \<open>A run of \<open>insert\<close> calls, as \<open>main\<close> performs them, stopping at the first abort.\<close>

fun d3_inserts :: "diet3 \<Rightarrow> (int \<times> int) list \<Rightarrow> (error + diet3) option" where
  "d3_inserts st [] = ok st"
| "d3_inserts st (p # ops) = bindr (d3_insert st (fst p) (snd p)) (\<lambda>st1. d3_inserts st1 ops)"

text \<open>The \<open>blit\<close> calls made during one \<open>insert\<close>: what the call adds to the trace.\<close>

definition d3_emitted :: "diet3 \<Rightarrow> int \<Rightarrow> int \<Rightarrow> (error + (int \<times> int) list) option" where
  "d3_emitted st start end =
     bindr (d3_insert st start end) (\<lambda>st1. ok (drop (length (d3_blits st)) (d3_blits st1)))"

definition d3_emitted_after :: "(int \<times> int) list \<Rightarrow> int \<Rightarrow> int \<Rightarrow> (error + (int \<times> int) list) option" where
  "d3_emitted_after ops start end =
     bindr (d3_inserts d3_clear ops) (\<lambda>st. d3_emitted st start end)"

definition d3_intervals_after :: "(int \<times> int) list \<Rightarrow> (int \<times> int) list option" where
  "d3_intervals_after ops =
     (case d3_inserts d3_clear ops of Some (Inr st) \<Rightarrow> d3_intervals st | _ \<Rightarrow> None)"

section \<open>diet.c: the unbalanced DIET\<close>

record node1 =
  n1_low :: int
  n1_high :: int
  n1_left :: int
  n1_right :: int

record diet1 =
  d1_len :: int
  d1_root :: int
  d1_nodes :: "int \<Rightarrow> node1"
  d1_blits :: "(int \<times> int) list"

definition N1 :: int where
  "N1 = 10000"

definition d1_blit :: "diet1 \<Rightarrow> int \<Rightarrow> int \<Rightarrow> diet1" where
  "d1_blit st start end = st\<lparr>d1_blits := d1_blits st @ [(start, end)]\<rparr>"

text \<open>
  \<open>new_node\<close> of diet.c has no capacity check: it writes \<open>nodes[len]\<close> whatever
  \<open>len\<close> is.  The model performs the write at that index, inside the arena or not.
\<close>

definition d1_new_node :: "diet1 \<Rightarrow> int \<Rightarrow> int \<Rightarrow> int \<Rightarrow> int \<Rightarrow> int \<times> diet1" where
  "d1_new_node st low high left right =
     (let n = d1_len st in
      (n, st\<lparr>d1_len := i16 (d1_len st + 1),
              d1_nodes := (d1_nodes st)(n := \<lparr>n1_low = low, n1_high = high,
                 n1_left = left, n1_right = right\<rparr>)\<rparr>))"

text \<open>
  \<open>less_than_or_equal\<close> and \<open>greater_than_or_equal\<close> return a handle and, through
  \<open>out_low\<close>/\<open>out_high\<close>, an endpoint: the model returns the pair (handle, endpoint).
\<close>

partial_function (option) d1_less_than_or_equal :: "diet1 \<Rightarrow> int \<Rightarrow> int \<Rightarrow> int \<Rightarrow> int \<Rightarrow> ((int \<times> int) \<times> diet1) option" where
  "d1_less_than_or_equal st x low blit_low blit_high =
     (if x = T then Some ((x, low), st)
      else if low > n1_high (d1_nodes st x) + 1 then
        let new_blit_low = i16 (n1_high (d1_nodes st x) + 1);
            new_blit_high = blit_low in
        Option.bind (d1_less_than_or_equal st (n1_right (d1_nodes st x)) low new_blit_low new_blit_high)
          (\<lambda>((r2, new_low), st1).
             let out_low = min low new_low;
                 (n, st2) = d1_new_node st1 (n1_low (d1_nodes st1 x)) (n1_high (d1_nodes st1 x))
                              (n1_left (d1_nodes st1 x)) r2 in
             Some ((n, out_low), st2))
      else if low \<ge> n1_low (d1_nodes st x) then
        let st1 = d1_blit st (i16 (n1_high (d1_nodes st x) + 1)) blit_high in
        Some ((n1_left (d1_nodes st1 x), n1_low (d1_nodes st1 x)), st1)
      else
        let st1 = d1_blit st (i16 (n1_high (d1_nodes st x) + 1)) blit_high;
            new_blit_high = i16 (n1_low (d1_nodes st1 x) - 1);
            st2 = (if n1_left (d1_nodes st1 x) = T then d1_blit st1 blit_low new_blit_high else st1) in
        d1_less_than_or_equal st2 (n1_left (d1_nodes st2 x)) low blit_low new_blit_high)"

partial_function (option) d1_greater_than_or_equal :: "diet1 \<Rightarrow> int \<Rightarrow> int \<Rightarrow> int \<Rightarrow> int \<Rightarrow> ((int \<times> int) \<times> diet1) option" where
  "d1_greater_than_or_equal st x high blit_low blit_high =
     (if x = T then Some ((x, high), st)
      else if high < n1_low (d1_nodes st x) - 1 then
        let new_blit_low = blit_high;
            new_blit_high = i16 (n1_low (d1_nodes st x) - 1) in
        Option.bind (d1_greater_than_or_equal st (n1_left (d1_nodes st x)) high new_blit_low new_blit_high)
          (\<lambda>((l2, new_high), st1).
             let out_high = max high new_high;
                 (n, st2) = d1_new_node st1 (n1_low (d1_nodes st1 x)) (n1_high (d1_nodes st1 x))
                              l2 (n1_right (d1_nodes st1 x)) in
             Some ((n, out_high), st2))
      else if high \<le> n1_high (d1_nodes st x) then
        let st1 = d1_blit st blit_low (i16 (n1_low (d1_nodes st x) - 1)) in
        Some ((n1_right (d1_nodes st1 x), n1_high (d1_nodes st1 x)), st1)
      else
        let st1 = d1_blit st blit_low (i16 (n1_low (d1_nodes st x) - 1));
            new_blit_low = i16 (n1_high (d1_nodes st1 x) + 1);
            st2 = (if n1_right (d1_nodes st1 x) = T then d1_blit st1 new_blit_low blit_high else st1) in
        d1_greater_than_or_equal st2 (n1_right (d1_nodes st2 x)) high new_blit_low blit_high)"

declare d1_less_than_or_equal.simps [code]
declare d1_greater_than_or_equal.simps [code]

text \<open>
  \<open>insert_range\<close> updates the node \<open>x\<close> in place.  The six locals \<open>ll, lh, rl, rh,
  default_blit_low, default_blit_high\<close> are set by the first \<open>if\<close>.
\<close>

partial_function (option) d1_insert_range :: "diet1 \<Rightarrow> int \<Rightarrow> int \<Rightarrow> int \<Rightarrow> (int \<times> diet1) option" where
  "d1_insert_range st x low high =
     (if x = T then Some (d1_new_node (d1_blit st low high) low high T T)
      else
        let (ll, lh, rl, rh, default_blit_low, default_blit_high) =
              (if n1_low (d1_nodes st x) < low then
                 (n1_low (d1_nodes st x), n1_high (d1_nodes st x), low, high,
                  i16 (max low (n1_high (d1_nodes st x) + 1)), high)
               else
                 (low, high, n1_low (d1_nodes st x), n1_high (d1_nodes st x),
                  low, i16 (min high (n1_low (d1_nodes st x) - 1)))) in
        if lh \<ge> rl \<or> lh + 1 = rl then
          (if low \<ge> n1_low (d1_nodes st x) \<and> high \<le> n1_high (d1_nodes st x) then Some (x, st)
           else
             let r1l = ll; r1h = max lh rh in
             Option.bind (d1_less_than_or_equal st (n1_left (d1_nodes st x)) r1l
                            default_blit_low default_blit_high)
               (\<lambda>((new_left, new_low), st1).
             Option.bind (d1_greater_than_or_equal st1 (n1_right (d1_nodes st1 x)) r1h
                            default_blit_low default_blit_high)
               (\<lambda>((new_right, new_high), st2).
                  let st3 = (if n1_left (d1_nodes st2 x) = T \<and> n1_right (d1_nodes st2 x) = T
                             then d1_blit st2 default_blit_low default_blit_high else st2) in
                  Some (x, st3\<lparr>d1_nodes := (d1_nodes st3)(x := \<lparr>n1_low = new_low,
                     n1_high = new_high, n1_left = new_left, n1_right = new_right\<rparr>)\<rparr>))))
        else
          (let r1l = ll; r1h = lh; r2l = rl; r2h = rh in
           if r1l = n1_low (d1_nodes st x) \<and> r1h = n1_high (d1_nodes st x) then
             Option.bind (d1_insert_range st (n1_right (d1_nodes st x)) r2l r2h)
               (\<lambda>(right, st1).
                  Some (x, st1\<lparr>d1_nodes := (d1_nodes st1)(x := (d1_nodes st1 x)\<lparr>n1_right := right\<rparr>)\<rparr>))
           else
             Option.bind (d1_insert_range st (n1_left (d1_nodes st x)) r1l r1h)
               (\<lambda>(left, st1).
                  Some (x, st1\<lparr>d1_nodes := (d1_nodes st1)(x := (d1_nodes st1 x)\<lparr>n1_left := left\<rparr>)\<rparr>))))"

declare d1_insert_range.simps [code]

text \<open>
  \<open>insert\<close> stores the returned handle in \<open>root\<close>; the mask bookkeeping and the
  printing that follow in the source belong to the test harness.
\<close>

definition d1_insert :: "diet1 \<Rightarrow> int \<Rightarrow> int \<Rightarrow> diet1 option" where
  "d1_insert st low high =
     Option.bind (d1_insert_range st (d1_root st) low high) (\<lambda>(t, st1). Some (st1\<lparr>d1_root := t\<rparr>))"

definition d1_clear :: diet1 where
  "d1_clear = \<lparr>d1_len = 0, d1_root = T,
     d1_nodes = (\<lambda>_. \<lparr>n1_low = 0, n1_high = 0, n1_left = 0, n1_right = 0\<rparr>),
     d1_blits = []\<rparr>"

partial_function (option) d1_gather_indices :: "diet1 \<Rightarrow> int \<Rightarrow> int list \<Rightarrow> int list option" where
  "d1_gather_indices st x values =
     (let v1 = values @ [x] in
      Option.bind (if n1_left (d1_nodes st x) \<noteq> T
                   then d1_gather_indices st (n1_left (d1_nodes st x)) v1 else Some v1)
        (\<lambda>v2. if n1_right (d1_nodes st x) \<noteq> T
               then d1_gather_indices st (n1_right (d1_nodes st x)) v2 else Some v2))"

declare d1_gather_indices.simps [code]

definition d1_overlapping_or_adjacent :: "diet1 \<Rightarrow> int \<Rightarrow> int \<Rightarrow> bool" where
  "d1_overlapping_or_adjacent st x y =
     (let x0 = n1_low (d1_nodes st x); x1 = n1_high (d1_nodes st x);
          y0 = n1_low (d1_nodes st y); y1 = n1_high (d1_nodes st y) in
      x0 \<le> y1 + 1 \<and> y0 \<le> x1 + 1)"

definition d1_stored :: "diet1 \<Rightarrow> int list option" where
  "d1_stored st = (if d1_root st = T then Some [] else d1_gather_indices st (d1_root st) [])"

definition d1_interval :: "diet1 \<Rightarrow> int \<Rightarrow> int \<times> int" where
  "d1_interval st x = (n1_low (d1_nodes st x), n1_high (d1_nodes st x))"

definition d1_intervals :: "diet1 \<Rightarrow> (int \<times> int) list option" where
  "d1_intervals st = map_option (map (d1_interval st)) (d1_stored st)"

fun d1_inserts :: "diet1 \<Rightarrow> (int \<times> int) list \<Rightarrow> diet1 option" where
  "d1_inserts st [] = Some st"
| "d1_inserts st (p # ops) = Option.bind (d1_insert st (fst p) (snd p)) (\<lambda>st1. d1_inserts st1 ops)"

definition d1_emitted :: "diet1 \<Rightarrow> int \<Rightarrow> int \<Rightarrow> (int \<times> int) list option" where
  "d1_emitted st low high =
     map_option (\<lambda>st1. drop (length (d1_blits st)) (d1_blits st1)) (d1_insert st low high)"

definition d1_emitted_after :: "(int \<times> int) list \<Rightarrow> int \<Rightarrow> int \<Rightarrow> (int \<times> int) list option" where
  "d1_emitted_after ops low high =
     Option.bind (d1_inserts d1_clear ops) (\<lambda>st. d1_emitted st low high)"

definition d1_intervals_after :: "(int \<times> int) list \<Rightarrow> (int \<times> int) list option" where
  "d1_intervals_after ops = Option.bind (d1_inserts d1_clear ops) d1_intervals"

section \<open>avl\_tree\_ref.c: the interval AVL tree\<close>

record anode =
  a_low :: int
  a_high :: int
  a_max :: int
  a_left :: int
  a_right :: int
  a_parent :: int
  a_height :: int

record avl =
  a_root :: int
  a_len :: int
  a_nodes :: "int \<Rightarrow> anode"

definition NA :: int where
  "NA = 1000"

text \<open>The assignments \<open>nodes[i].f = v\<close> for the fields the code writes one at a time.\<close>

definition set_left :: "avl \<Rightarrow> int \<Rightarrow> int \<Rightarrow> avl" where
  "set_left st i v = st\<lparr>a_nodes := (a_nodes st)(i := (a_nodes st i)\<lparr>a_left := v\<rparr>)\<rparr>"

definition set_right :: "avl \<Rightarrow> int \<Rightarrow> int \<Rightarrow> avl" where
  "set_right st i v = st\<lparr>a_nodes := (a_nodes st)(i := (a_nodes st i)\<lparr>a_right := v\<rparr>)\<rparr>"

definition set_parent :: "avl \<Rightarrow> int \<Rightarrow> int \<Rightarrow> avl" where
  "set_parent st i v = st\<lparr>a_nodes := (a_nodes st)(i := (a_nodes st i)\<lparr>a_parent := v\<rparr>)\<rparr>"

definition init_node :: "avl \<Rightarrow> int \<Rightarrow> int \<Rightarrow> int \<Rightarrow> avl" where
  "init_node st i low high =
     st\<lparr>a_nodes := (a_nodes st)(i := \<lparr>a_low = low, a_high = high, a_max = high,
        a_left = T, a_right = T, a_parent = T, a_height = 1\<rparr>)\<rparr>"

definition a_height_of :: "avl \<Rightarrow> int \<Rightarrow> int" where
  "a_height_of st x = (if x = T then 0 else a_height (a_nodes st x))"

definition diff :: "avl \<Rightarrow> int \<Rightarrow> int" where
  "diff st x = i16 (a_height_of st (a_right (a_nodes st x)) - a_height_of st (a_left (a_nodes st x)))"

definition update_height :: "avl \<Rightarrow> int \<Rightarrow> avl" where
  "update_height st x =
     (let lh = a_height_of st (a_left (a_nodes st x));
          rh = a_height_of st (a_right (a_nodes st x)) in
      st\<lparr>a_nodes := (a_nodes st)(x := (a_nodes st x)\<lparr>a_height := i16 (1 + max lh rh)\<rparr>)\<rparr>)"

definition update_max :: "avl \<Rightarrow> int \<Rightarrow> avl" where
  "update_max st x =
     (let lm = (if a_left (a_nodes st x) = T then INT16_MIN
                else a_max (a_nodes st (a_left (a_nodes st x))));
          rm = (if a_right (a_nodes st x) = T then INT16_MIN
                else a_max (a_nodes st (a_right (a_nodes st x)))) in
      st\<lparr>a_nodes := (a_nodes st)(x := (a_nodes st x)\<lparr>a_max := max (a_high (a_nodes st x)) (max lm rm)\<rparr>)\<rparr>)"

definition right_rotate :: "avl \<Rightarrow> int \<Rightarrow> int \<times> avl" where
  "right_rotate st x =
     (let y = a_left (a_nodes st x);
          st1 = set_left st x (a_right (a_nodes st y));
          st2 = (if a_right (a_nodes st1 y) \<noteq> T
                 then set_parent st1 (a_right (a_nodes st1 y)) x else st1);
          st3 = set_parent st2 y (a_parent (a_nodes st2 x));
          st4 = (if a_parent (a_nodes st3 x) = T then st3\<lparr>a_root := y\<rparr>
                 else if x = a_left (a_nodes st3 (a_parent (a_nodes st3 x)))
                 then set_left st3 (a_parent (a_nodes st3 x)) y
                 else set_right st3 (a_parent (a_nodes st3 x)) y);
          st5 = set_right st4 y x;
          st6 = set_parent st5 x y;
          st7 = update_height st6 x;
          st8 = update_height st7 y;
          st9 = update_max st8 x;
          st10 = update_max st9 y in
      (y, st10))"

definition left_rotate :: "avl \<Rightarrow> int \<Rightarrow> int \<times> avl" where
  "left_rotate st x =
     (let y = a_right (a_nodes st x);
          st1 = set_right st x (a_left (a_nodes st y));
          st2 = (if a_left (a_nodes st1 y) \<noteq> T
                 then set_parent st1 (a_left (a_nodes st1 y)) x else st1);
          st3 = set_parent st2 y (a_parent (a_nodes st2 x));
          st4 = (if a_parent (a_nodes st3 x) = T then st3\<lparr>a_root := y\<rparr>
                 else if x = a_left (a_nodes st3 (a_parent (a_nodes st3 x)))
                 then set_left st3 (a_parent (a_nodes st3 x)) y
                 else set_right st3 (a_parent (a_nodes st3 x)) y);
          st5 = set_left st4 y x;
          st6 = set_parent st5 x y;
          st7 = update_height st6 x;
          st8 = update_height st7 y;
          st9 = update_max st8 x;
          st10 = update_max st9 y in
      (y, st10))"

definition balance :: "avl \<Rightarrow> int \<Rightarrow> int \<times> avl" where
  "balance st x =
     (let d = diff st x in
      if d > 1 then
        (let st2 = (if diff st (a_right (a_nodes st x)) < 0
                    then (let (y, st1) = right_rotate st (a_right (a_nodes st x))
                          in set_right st1 x y)
                    else st)
         in left_rotate st2 x)
      else if d < - 1 then
        (let st2 = (if diff st (a_left (a_nodes st x)) > 0
                    then (let (y, st1) = left_rotate st (a_left (a_nodes st x))
                          in set_left st1 x y)
                    else st)
         in right_rotate st2 x)
      else
        (let st1 = update_height st x; st2 = update_max st1 x in (x, st2)))"

text \<open>
  The two loops of \<open>insert\<close>.  The first walks down from the root and returns the last
  node it saw (\<open>p\<close>); the second walks up the parent links and rebalances.  A loop that
  does not end is \<open>None\<close>.
\<close>

partial_function (option) insert_descend :: "avl \<Rightarrow> int \<Rightarrow> int \<Rightarrow> int \<Rightarrow> int option" where
  "insert_descend st low x p =
     (if x \<noteq> T then
        insert_descend st low
          (if low < a_low (a_nodes st x) then a_left (a_nodes st x) else a_right (a_nodes st x)) x
      else Some p)"

partial_function (option) insert_ascend :: "avl \<Rightarrow> int \<Rightarrow> (int \<times> avl) option" where
  "insert_ascend st x =
     (if a_parent (a_nodes st x) \<noteq> T then
        (let (x', st') = balance st (a_parent (a_nodes st x)) in insert_ascend st' x')
      else Some (x, st))"

declare insert_descend.simps [code]
declare insert_ascend.simps [code]

text \<open>
  \<open>insert\<close> has no capacity check either: \<open>i16 n = len++; init_node(n, low, high)\<close>
  writes \<open>nodes[n]\<close> for any \<open>n\<close>.
\<close>

definition a_insert :: "avl \<Rightarrow> int \<Rightarrow> int \<Rightarrow> avl option" where
  "a_insert st low high =
     (let n = a_len st;
          st1 = st\<lparr>a_len := i16 (a_len st + 1)\<rparr>;
          st2 = init_node st1 n low high in
      if a_root st2 = T then Some (st2\<lparr>a_root := n\<rparr>)
      else
        Option.bind (insert_descend st2 low (a_root st2) T) (\<lambda>p.
          let st3 = (if low < a_low (a_nodes st2 p) then set_left st2 p n else set_right st2 p n);
              st4 = set_parent st3 n p in
          Option.bind (insert_ascend st4 n) (\<lambda>(x, st5). Some (st5\<lparr>a_root := x\<rparr>))))"

text \<open>A run of \<open>insert\<close> calls, as the test driver performs them.\<close>

fun a_inserts :: "avl \<Rightarrow> (int \<times> int) list \<Rightarrow> avl option" where
  "a_inserts st [] = Some st"
| "a_inserts st (p # ops) = Option.bind (a_insert st (fst p) (snd p)) (\<lambda>st1. a_inserts st1 ops)"

definition overlap :: "int \<Rightarrow> int \<Rightarrow> int \<Rightarrow> int \<Rightarrow> bool" where
  "overlap x0 x1 y0 y1 = (x0 \<le> y1 \<and> y0 \<le> x1)"

text \<open>
  \<open>find_all_overlapping\<close> appends to \<open>results[(*rlen)++]\<close>; the model threads the
  list of handles found so far.
\<close>

partial_function (option) find_all_overlapping :: "avl \<Rightarrow> int \<Rightarrow> int \<Rightarrow> int \<Rightarrow> int list \<Rightarrow> int list option" where
  "find_all_overlapping st x low high results =
     (if x = T then Some results
      else
        let r1 = (if overlap low high (a_low (a_nodes st x)) (a_high (a_nodes st x))
                  then results @ [x] else results) in
        Option.bind
          (if a_left (a_nodes st x) \<noteq> T \<and> a_max (a_nodes st (a_left (a_nodes st x))) \<ge> low
           then find_all_overlapping st (a_left (a_nodes st x)) low high r1 else Some r1)
          (\<lambda>r2.
             if a_right (a_nodes st x) \<noteq> T \<and> a_max (a_nodes st (a_right (a_nodes st x))) \<ge> low
             then find_all_overlapping st (a_right (a_nodes st x)) low high r2 else Some r2))"

declare find_all_overlapping.simps [code]

text \<open>
  The loop \<open>for (i16 i = 0; i < len; ++i)\<close> of \<open>find_all_overlapping_naive\<close>, from
  index \<open>i\<close> on.  Since \<open>i < len \<le> INT16_MAX\<close>, the increment does not wrap.
\<close>

function naive_loop :: "avl \<Rightarrow> int \<Rightarrow> int \<Rightarrow> int \<Rightarrow> int list \<Rightarrow> int list" where
  "naive_loop st low high i actual =
     (if i < a_len st then
        naive_loop st low high (i + 1)
          (if overlap low high (a_low (a_nodes st i)) (a_high (a_nodes st i))
           then actual @ [i] else actual)
      else actual)"
  by pat_completeness auto
termination
  by (relation "measure (\<lambda>(st, low, high, i, actual). nat (a_len st - i))") auto

definition find_all_overlapping_naive :: "avl \<Rightarrow> int \<Rightarrow> int \<Rightarrow> int list" where
  "find_all_overlapping_naive st low high = naive_loop st low high 0 []"

text \<open>The state the test driver starts from: \<open>root = T; len = 0\<close>.\<close>

definition a_empty :: avl where
  "a_empty = \<lparr>a_root = T, a_len = 0,
     a_nodes = (\<lambda>_. \<lparr>a_low = 0, a_high = 0, a_max = 0, a_left = 0, a_right = 0,
        a_parent = 0, a_height = 0\<rparr>)\<rparr>"

definition same_ivs :: "avl \<Rightarrow> avl \<Rightarrow> bool" where
  "same_ivs st st' \<longleftrightarrow> a_len st' = a_len st \<and>
     (\<forall>i. a_low (a_nodes st' i) = a_low (a_nodes st i) \<and> a_high (a_nodes st' i) = a_high (a_nodes st i))"

text \<open>Concrete states for the examples below.\<close>

definition d1_one :: diet1 where
  "d1_one = \<lparr>d1_len = 1, d1_root = 0,
     d1_nodes = (d1_nodes d1_clear)(0 := \<lparr>n1_low = 1, n1_high = 5, n1_left = T, n1_right = T\<rparr>),
     d1_blits = [(1, 5)]\<rparr>"

definition d3_one :: diet3 where
  "d3_one = \<lparr>d3_len = 1, d3_root = 0,
     d3_nodes = (d3_nodes d3_clear)(0 := \<lparr>n3_start = 1, n3_end = 5, n3_height = 1,
        n3_left = T, n3_right = T\<rparr>),
     d3_blits = [(1, 5)]\<rparr>"

definition a_one :: avl where
  "a_one = \<lparr>a_root = 0, a_len = 1,
     a_nodes = (a_nodes a_empty)(0 := \<lparr>a_low = 3, a_high = 7, a_max = 7, a_left = T,
        a_right = T, a_parent = T, a_height = 1\<rparr>)\<rparr>"

section \<open>Notions used to state the properties\<close>

text \<open>
  A list of intervals is isolated when every interval is non-empty and each one ends
  more than one unit before every later one starts: sorted, pairwise neither
  overlapping nor adjacent.
\<close>

definition iso_list :: "(int \<times> int) list \<Rightarrow> bool" where
  "iso_list xs \<longleftrightarrow> (\<forall>iv\<in>set xs. fst iv \<le> snd iv) \<and> sorted_wrt (\<lambda>x y. snd x + 1 < fst y) xs"

text \<open>
  What the leftward and the rightward search compute on the sorted list of intervals:
  the low end of the first interval that \<open>lo\<close> touches (or \<open>lo\<close>), and the high end of
  the last interval that \<open>hi\<close> touches (or \<open>hi\<close>).
\<close>

fun low_of :: "int \<Rightarrow> (int \<times> int) list \<Rightarrow> int" where
  "low_of lo [] = lo"
| "low_of lo (iv # xs) = (if snd iv + 1 < lo then low_of lo xs else min (fst iv) lo)"

fun high_of :: "int \<Rightarrow> (int \<times> int) list \<Rightarrow> int" where
  "high_of hi [] = hi"
| "high_of hi (iv # ys) = (if fst iv \<le> hi + 1 then max (snd iv) (high_of hi ys) else hi)"

text \<open>
  Binary trees, to speak about the shape the arena holds: \<open>inorder\<close> lists the entries
  from left to right, \<open>preorder\<close> in the order \<open>gather_indices\<close> visits them.
\<close>

datatype 'a tree = Leaf | Node "'a tree" 'a "'a tree"

fun inorder :: "'a tree \<Rightarrow> 'a list" where
  "inorder Leaf = []"
| "inorder (Node l a r) = inorder l @ a # inorder r"

fun preorder :: "'a tree \<Rightarrow> 'a list" where
  "preorder Leaf = []"
| "preorder (Node l a r) = a # preorder l @ preorder r"

text \<open>
  The tree that the arena of diet3.c holds at a handle: the handle \<open>T\<close> is the empty
  tree; any other handle lies in the arena, carries its interval, and its children are
  \<open>T\<close> or older (smaller) handles holding the subtrees.  The stored height is within
  \<open>0 \<dots> h + 1\<close>, so it never wraps.
\<close>

fun rep3 :: "(int \<Rightarrow> node3) \<Rightarrow> int \<Rightarrow> (int \<times> int) tree \<Rightarrow> bool" where
  "rep3 nd h Leaf = (h = T)"
| "rep3 nd h (Node l iv r) =
     (0 \<le> h \<and> h < N3 \<and> iv = (n3_start (nd h), n3_end (nd h)) \<and>
      (n3_left (nd h) = T \<or> n3_left (nd h) < h) \<and> (n3_right (nd h) = T \<or> n3_right (nd h) < h) \<and>
      0 \<le> n3_height (nd h) \<and> n3_height (nd h) \<le> h + 1 \<and>
      rep3 nd (n3_left (nd h)) l \<and> rep3 nd (n3_right (nd h)) r)"

definition wf3 :: "diet3 \<Rightarrow> int \<Rightarrow> (int \<times> int) tree \<Rightarrow> bool" where
  "wf3 st h t \<longleftrightarrow> rep3 (d3_nodes st) h t \<and> (h = T \<or> h < d3_len st) \<and>
     0 \<le> d3_len st \<and> d3_len st \<le> N3"

text \<open>diet3.c only appends: a later state extends an earlier one.\<close>

definition ext3 :: "diet3 \<Rightarrow> diet3 \<Rightarrow> bool" where
  "ext3 st st' \<longleftrightarrow> d3_len st \<le> d3_len st' \<and> d3_len st' \<le> N3 \<and>
     (\<forall>i. i < d3_len st \<longrightarrow> d3_nodes st' i = d3_nodes st i)"

text \<open>
  The outcome of a diet3.c operation started in \<open>st\<close>: it returns, and either the
  capacity assertion failed or the result \<open>v\<close> and the extended state satisfy \<open>Q\<close>.
\<close>

definition post3 :: "diet3 \<Rightarrow> (error + 'a \<times> diet3) option \<Rightarrow> ('a \<Rightarrow> diet3 \<Rightarrow> bool) \<Rightarrow> bool" where
  "post3 st m Q \<longleftrightarrow>
     (\<exists>r. m = Some r \<and>
        (r = Inl AssertionFailed \<or> (\<exists>v st'. r = Inr (v, st') \<and> ext3 st st' \<and> Q v st')))"

text \<open>The arena holds at handle \<open>h\<close> a tree whose intervals, from left to right, are \<open>xs\<close>.\<close>

definition stores3 :: "diet3 \<Rightarrow> int \<Rightarrow> (int \<times> int) list \<Rightarrow> bool" where
  "stores3 st h xs \<longleftrightarrow> (\<exists>t. wf3 st h t \<and> inorder t = xs)"

text \<open>
  An allocating operation started in \<open>st\<close> built, at the handle it returns, a non-empty
  tree with the intervals \<open>xs\<close>, and made no \<open>blit\<close> call.
\<close>

definition built3 :: "diet3 \<Rightarrow> (int \<times> int) list \<Rightarrow> int \<Rightarrow> diet3 \<Rightarrow> bool" where
  "built3 st xs h st' \<longleftrightarrow> stores3 st' h xs \<and> h \<noteq> T \<and> d3_blits st' = d3_blits st"

text \<open>
  What an insertion of \<open>[start, en]\<close> has to make of the isolated list \<open>xs\<close>: again an
  isolated list, covering what \<open>xs\<close> covers and the new range; and the very same list
  when the range was covered already.
\<close>

definition inserted :: "(int \<times> int) list \<Rightarrow> int \<Rightarrow> int \<Rightarrow> (int \<times> int) list \<Rightarrow> bool" where
  "inserted xs start en ys \<longleftrightarrow>
     iso_list ys \<and> cover ys = cover xs \<union> {start..en} \<and> ({start..en} \<subseteq> cover xs \<longrightarrow> ys = xs)"

text \<open>
  diet.c updates nodes in place, so its trees are described by their handles: the
  arena holds the tree of handles \<open>t\<close> at \<open>h\<close>; the intervals are read from the nodes.
  A well-formed tree has pairwise different handles, all allocated.
\<close>

fun rep1 :: "(int \<Rightarrow> node1) \<Rightarrow> int \<Rightarrow> int tree \<Rightarrow> bool" where
  "rep1 nd h Leaf = (h = T)"
| "rep1 nd h (Node l x r) =
     (h = x \<and> x \<noteq> T \<and> rep1 nd (n1_left (nd x)) l \<and> rep1 nd (n1_right (nd x)) r)"

definition wf1 :: "diet1 \<Rightarrow> int \<Rightarrow> int tree \<Rightarrow> bool" where
  "wf1 st h t \<longleftrightarrow> rep1 (d1_nodes st) h t \<and> distinct (inorder t) \<and>
     set (inorder t) \<subseteq> {0..<d1_len st} \<and> 0 \<le> d1_len st"

definition ivs1 :: "diet1 \<Rightarrow> int tree \<Rightarrow> (int \<times> int) list" where
  "ivs1 st t = map (d1_interval st) (inorder t)"

text \<open>
  \<open>mod1 H st st'\<close>: from \<open>st\<close> to \<open>st'\<close> only nodes with handles in \<open>H\<close> were rewritten
  and new nodes appended.
\<close>

definition mod1 :: "int set \<Rightarrow> diet1 \<Rightarrow> diet1 \<Rightarrow> bool" where
  "mod1 H st st' \<longleftrightarrow> d1_len st \<le> d1_len st' \<and>
     (\<forall>i. i < d1_len st \<and> i \<notin> H \<longrightarrow> d1_nodes st' i = d1_nodes st i)"

text \<open>
  The searches of diet.c copy the nodes they keep: started in \<open>st\<close> on the tree \<open>t\<close>,
  they only append, at most one node per node of \<open>t\<close>, and return a well-formed tree
  of old and fresh handles with the intervals \<open>xs\<close>.
\<close>

definition copied1 :: "diet1 \<Rightarrow> int tree \<Rightarrow> (int \<times> int) list \<Rightarrow> int \<Rightarrow> diet1 \<Rightarrow> bool" where
  "copied1 st t xs x' st' \<longleftrightarrow> mod1 {} st st' \<and> d1_len st' \<le> d1_len st + int (size t) \<and>
     (\<exists>t'. wf1 st' x' t' \<and> set (inorder t') \<subseteq> set (inorder t) \<union> {d1_len st..<d1_len st'} \<and>
        ivs1 st' t' = xs)"

text \<open>
  The outcome of \<open>insert_range\<close> of diet.c on the tree \<open>t\<close>: only nodes of \<open>t\<close> were
  rewritten, at most \<open>size t + 1\<close> nodes appended, and the returned handle holds a
  well-formed tree whose intervals are the insertion result; no \<open>blit\<close> was made if the
  range was covered.
\<close>

definition ins1 :: "diet1 \<Rightarrow> int tree \<Rightarrow> int \<Rightarrow> int \<Rightarrow> int \<Rightarrow> diet1 \<Rightarrow> bool" where
  "ins1 st t low high x' st' \<longleftrightarrow>
     mod1 (set (inorder t)) st st' \<and> d1_len st' \<le> d1_len st + int (size t) + 1 \<and>
     (\<exists>t'. wf1 st' x' t' \<and> set (inorder t') \<subseteq> set (inorder t) \<union> {d1_len st..<d1_len st'} \<and>
        inserted (ivs1 st t) low high (ivs1 st' t') \<and>
        ({low..high} \<subseteq> cover (ivs1 st t) \<longrightarrow> d1_blits st' = d1_blits st))"

text \<open>
  \<open>new_node\<close> of diet.c does not check the capacity.  A run of inserts from the empty
  tree overflows the arena when some prefix of it leaves more than \<open>N\<close> nodes
  allocated: the last of them was written outside the array.
\<close>

definition d1_overflows :: "(int \<times> int) list \<Rightarrow> bool" where
  "d1_overflows ops \<longleftrightarrow>
     (\<exists>k s. k \<le> length ops \<and> d1_inserts d1_clear (take k ops) = Some s \<and> N1 < d1_len s)"

section \<open>Auxiliary facts\<close>

lemma d3_new_node_blits: "d3_new_node st a b h l r = Some (Inr (n, st')) \<Longrightarrow> d3_blits st' = d3_blits st"
  by (auto simp: d3_new_node_def Let_def ok_def fail_def split: if_splits)

lemma d3_create_blits: "d3_create st a b l r = Some (Inr (h, st')) \<Longrightarrow> d3_blits st' = d3_blits st"
  unfolding d3_create_def by (rule d3_new_node_blits)

lemma bindr_eq_Inr: "bindr m f = Some (Inr v) \<longleftrightarrow> (\<exists>w. m = Some (Inr w) \<and> f w = Some (Inr v))"
  by (cases m) (auto simp: bindr_def split: sum.splits)

lemma d3_balance_blits: "d3_balance st a b l r = Some (Inr (h, st')) \<Longrightarrow> d3_blits st' = d3_blits st"
  unfolding d3_balance_def Let_def
  by (auto simp: bindr_eq_Inr fail_def split: if_splits dest!: d3_create_blits d3_new_node_blits)

lemma d3_add_blits_aux:
  assumes "d3_add st t lft a b = Some y"
  shows "\<forall>h st'. y = Inr (h, st') \<longrightarrow> d3_blits st' = d3_blits st"
  by (rule d3_add.raw_induct [where P = "\<lambda>st t lft a b y. \<forall>h st'. y = Inr (h, st') \<longrightarrow> d3_blits st' = d3_blits st", OF _ assms])
     (auto simp: bindr_eq_Inr Let_def split: if_splits dest!: d3_new_node_blits d3_balance_blits)

lemma d3_add_blits: "d3_add st t lft a b = Some (Inr (h, st')) \<Longrightarrow> d3_blits st' = d3_blits st"
  using d3_add_blits_aux by blast

lemma d3_join_blits_aux:
  assumes "d3_join st a b l r = Some y"
  shows "\<forall>h st'. y = Inr (h, st') \<longrightarrow> d3_blits st' = d3_blits st"
  by (rule d3_join.raw_induct [where P = "\<lambda>st a b l r y. \<forall>h st'. y = Inr (h, st') \<longrightarrow> d3_blits st' = d3_blits st", OF _ assms])
     (auto simp: bindr_eq_Inr Let_def split: if_splits dest!: d3_add_blits d3_create_blits d3_balance_blits)

lemma d3_join_blits: "d3_join st a b l r = Some (Inr (h, st')) \<Longrightarrow> d3_blits st' = d3_blits st"
  using d3_join_blits_aux by blast

lemma bindr_eq_Some: "bindr m f = Some r \<longleftrightarrow>
   (\<exists>e. m = Some (Inl e) \<and> r = Inl e) \<or> (\<exists>w. m = Some (Inr w) \<and> f w = Some r)"
  by (cases m) (auto simp: bindr_def split: sum.splits)

lemma d3_new_node_full: "N3 \<le> d3_len st \<Longrightarrow> d3_new_node st a b h l r = Some (Inl AssertionFailed)"
  by (simp add: d3_new_node_def fail_def)

lemma d3_create_full: "N3 \<le> d3_len st \<Longrightarrow> d3_create st a b l r = Some (Inl AssertionFailed)"
  by (simp add: d3_create_def d3_new_node_full)

lemma d3_add_full:
  assumes "d3_add st t lft a b = Some y"
  shows "N3 \<le> d3_len st \<longrightarrow> y = Inl AssertionFailed"
proof (rule d3_add.raw_induct [where P = "\<lambda>st t lft a b y. N3 \<le> d3_len st \<longrightarrow> y = Inl AssertionFailed", OF _ assms], goal_cases)
  case (1 f st tree left start en y)
  from 1(2) show ?case
    by (auto simp: bindr_eq_Some d3_new_node_full Let_def split: if_splits dest!: 1(1))
qed

lemma d3_join_full:
  assumes "d3_join st a b l r = Some y"
  shows "N3 \<le> d3_len st \<longrightarrow> y = Inl AssertionFailed"
proof (rule d3_join.raw_induct [where P = "\<lambda>st a b l r y. N3 \<le> d3_len st \<longrightarrow> y = Inl AssertionFailed", OF _ assms], goal_cases)
  case (1 f st start en l r y)
  from 1(2) show ?case
    by (auto simp: bindr_eq_Some d3_create_full Let_def split: if_splits dest!: 1(1) d3_add_full)
qed

lemma d3_find_del_left_full:
  assumes "d3_find_del_left st t a b = Some y"
  shows "N3 \<le> d3_len st \<longrightarrow> (y = Inl AssertionFailed \<or> (\<exists>v st'. y = Inr (v, st') \<and> d3_len st' = d3_len st))"
proof (rule d3_find_del_left.raw_induct [where P = "\<lambda>st t a b y. N3 \<le> d3_len st \<longrightarrow> (y = Inl AssertionFailed \<or> (\<exists>v st'. y = Inr (v, st') \<and> d3_len st' = d3_len st))", OF _ assms], goal_cases)
  case (1 f st tree start en y)
  from 1(2) show ?case
    by (auto simp: bindr_eq_Some ok_def d3_blit_def Let_def split: if_splits dest!: 1(1) d3_join_full)
qed

lemma d3_find_del_right_full:
  assumes "d3_find_del_right st t a b = Some y"
  shows "N3 \<le> d3_len st \<longrightarrow> (y = Inl AssertionFailed \<or> (\<exists>v st'. y = Inr (v, st') \<and> d3_len st' = d3_len st))"
proof (rule d3_find_del_right.raw_induct [where P = "\<lambda>st t a b y. N3 \<le> d3_len st \<longrightarrow> (y = Inl AssertionFailed \<or> (\<exists>v st'. y = Inr (v, st') \<and> d3_len st' = d3_len st))", OF _ assms], goal_cases)
  case (1 f st tree start en y)
  from 1(2) show ?case
    by (auto simp: bindr_eq_Some ok_def d3_blit_def Let_def split: if_splits dest!: 1(1) d3_join_full)
qed

lemma d3_insert_range_full:
  assumes "d3_insert_range st t a b = Some y"
  shows "N3 \<le> d3_len st \<longrightarrow> y = Inl AssertionFailed"
proof (rule d3_insert_range.raw_induct [where P = "\<lambda>st t a b y. N3 \<le> d3_len st \<longrightarrow> y = Inl AssertionFailed", OF _ assms])
  fix f :: "diet3 \<Rightarrow> int \<Rightarrow> int \<Rightarrow> int \<Rightarrow> (error + int \<times> diet3) option" and st tree start en y
  assume IH: "\<And>st tree start en y. f st tree start en = Some y \<Longrightarrow> N3 \<le> d3_len st \<longrightarrow> y = Inl AssertionFailed"
  assume body: "(if tree = T then d3_new_node (d3_blit st start en) start en 1 T T
      else
        let s = n3_start (d3_nodes st tree); e = n3_end (d3_nodes st tree);
            l = n3_left (d3_nodes st tree); r = n3_right (d3_nodes st tree) in
        if en < s - 1 then
          bindr (f st l start en) (\<lambda>(new, st1). d3_join st1 s e new r)
        else if start > e + 1 then
          bindr (f st r start en) (\<lambda>(new, st1). d3_join st1 s e l new)
        else
          let def_blit_start = i16 (e + 1); def_blit_end = i16 (s - 1) in
          bindr (if start \<ge> s then ok ((s, l), st)
                 else d3_find_del_left st l start def_blit_end) (\<lambda>((news, newl), st1).
          bindr (if en \<le> e then ok ((e, r), st1)
                 else d3_find_del_right st1 r en def_blit_start) (\<lambda>((newe, newr), st2).
          d3_join st2 news newe newl newr))) = Some y"
  show "N3 \<le> d3_len st \<longrightarrow> y = Inl AssertionFailed"
  proof
    assume full: "N3 \<le> d3_len st"
    show "y = Inl AssertionFailed"
    proof (cases "tree = T")
      case True
      with body full show ?thesis by (simp add: d3_new_node_full d3_blit_def)
    next
      case False
      note nT = this
      let ?s = "n3_start (d3_nodes st tree)" and ?e = "n3_end (d3_nodes st tree)"
      let ?l = "n3_left (d3_nodes st tree)" and ?r = "n3_right (d3_nodes st tree)"
      consider (L) "en < ?s - 1" | (R) "\<not> en < ?s - 1" "start > ?e + 1" | (M) "\<not> en < ?s - 1" "\<not> start > ?e + 1"
        by blast
      then show ?thesis
      proof cases
        case L
        with body nT full show ?thesis
          by (auto simp: Let_def bindr_eq_Some dest!: IH)
      next
        case R
        with body nT full show ?thesis
          by (auto simp: Let_def bindr_eq_Some dest!: IH)
      next
        case M
        with body nT have b: "bindr (if start \<ge> ?s then ok ((?s, ?l), st)
                 else d3_find_del_left st ?l start (i16 (?s - 1))) (\<lambda>((news, newl), st1).
          bindr (if en \<le> ?e then ok ((?e, ?r), st1)
                 else d3_find_del_right st1 ?r en (i16 (?e + 1))) (\<lambda>((newe, newr), st2).
          d3_join st2 news newe newl newr)) = Some y"
          by (simp add: Let_def)
        define m1 where "m1 = (if start \<ge> ?s then ok ((?s, ?l), st)
                 else d3_find_del_left st ?l start (i16 (?s - 1)))"
        define m2 where "m2 = (\<lambda>st1. if en \<le> ?e then ok ((?e, ?r), st1)
                 else d3_find_del_right st1 ?r en (i16 (?e + 1)))"
        have m1: "r = Inl AssertionFailed \<or> (\<exists>v st'. r = Inr (v, st') \<and> N3 \<le> d3_len st')"
          if "m1 = Some r" for r
          using that full d3_find_del_left_full [of st ?l start "i16 (?s - 1)" r]
          by (auto simp: m1_def ok_def split: if_splits)
        have m2: "r = Inl AssertionFailed \<or> (\<exists>v st'. r = Inr (v, st') \<and> N3 \<le> d3_len st')"
          if "m2 st1 = Some r" "N3 \<le> d3_len st1" for r st1
          using that d3_find_del_right_full [of st1 ?r en "i16 (?e + 1)" r]
          by (auto simp: m2_def ok_def split: if_splits)
        from b have b': "bindr m1 (\<lambda>((news, newl), st1).
          bindr (m2 st1) (\<lambda>((newe, newr), st2). d3_join st2 news newe newl newr)) = Some y"
          by (simp add: m1_def m2_def)
        then consider (e1) e where "m1 = Some (Inl e)" "y = Inl e"
          | (s1) w where "m1 = Some (Inr w)"
              "bindr (m2 (snd w)) (\<lambda>((newe, newr), st2). d3_join st2 (fst (fst w)) newe (snd (fst w)) newr) = Some y"
          by (auto simp: bindr_eq_Some split_beta)
        then show ?thesis
        proof cases
          case e1
          with m1 [OF e1(1)] show ?thesis by simp
        next
          case s1
          from m1 [OF s1(1)] have l1: "N3 \<le> d3_len (snd w)" by auto
          from s1(2) consider (e2) e where "m2 (snd w) = Some (Inl e)" "y = Inl e"
            | (s2) w2 where "m2 (snd w) = Some (Inr w2)"
                "d3_join (snd w2) (fst (fst w)) (fst (fst w2)) (snd (fst w)) (snd (fst w2)) = Some y"
            by (auto simp: bindr_eq_Some split_beta)
          then show ?thesis
          proof cases
            case e2
            with m2 [OF e2(1) l1] show ?thesis by simp
          next
            case s2
            from m2 [OF s2(1) l1] have "N3 \<le> d3_len (snd w2)" by auto
            with d3_join_full [OF s2(2)] show ?thesis by simp
          qed
        qed
      qed
    qed
  qed
qed

lemma d3_insert_full: "N3 \<le> d3_len st \<Longrightarrow> d3_insert st a b = Some y \<Longrightarrow> y = Inl AssertionFailed"
  by (auto simp: d3_insert_def bindr_eq_Some ok_def dest!: d3_insert_range_full)

lemma same_ivs_refl [simp]: "same_ivs st st"
  by (simp add: same_ivs_def)

lemma same_ivs_trans: "same_ivs a b \<Longrightarrow> same_ivs b c \<Longrightarrow> same_ivs a c"
  by (simp add: same_ivs_def)

lemma same_ivs_ops:
  "same_ivs st s \<Longrightarrow> same_ivs st (set_left s i v)"
  "same_ivs st s \<Longrightarrow> same_ivs st (set_right s i v)"
  "same_ivs st s \<Longrightarrow> same_ivs st (set_parent s i v)"
  "same_ivs st s \<Longrightarrow> same_ivs st (update_height s i)"
  "same_ivs st s \<Longrightarrow> same_ivs st (update_max s i)"
  "same_ivs st s \<Longrightarrow> same_ivs st (s\<lparr>a_root := v\<rparr>)"
  "same_ivs st A \<Longrightarrow> same_ivs st B \<Longrightarrow> same_ivs st (if c then A else B)"
  by (simp_all add: same_ivs_def set_left_def set_right_def set_parent_def update_height_def
      update_max_def Let_def)

lemma same_ivs_right_rotate: "same_ivs st s \<Longrightarrow> same_ivs st (snd (right_rotate s x))"
  unfolding right_rotate_def Let_def snd_conv
  by (intro same_ivs_ops)

lemma same_ivs_left_rotate: "same_ivs st s \<Longrightarrow> same_ivs st (snd (left_rotate s x))"
  unfolding left_rotate_def Let_def snd_conv
  by (intro same_ivs_ops)

lemma same_ivs_balance: "same_ivs st (snd (balance st x))"
  unfolding balance_def Let_def
  by (simp add: split_beta same_ivs_right_rotate same_ivs_left_rotate same_ivs_ops)

lemma same_ivs_insert_ascend:
  assumes "insert_ascend st x = Some y"
  shows "same_ivs st (snd y)"
proof -
  have "(case (st, x) of (st, x) \<Rightarrow> \<lambda>y. same_ivs st (snd y)) y"
  proof (rule insert_ascend.raw_induct [where P = "\<lambda>st x y. same_ivs st (snd y)"])
    show "(case (st, x) of (st, x) \<Rightarrow> insert_ascend st x) = Some y"
      using assms by simp
  next
    fix f :: "avl \<Rightarrow> int \<Rightarrow> (int \<times> avl) option" and st x y
    assume IH: "\<And>st x y. f st x = Some y \<Longrightarrow> same_ivs st (snd y)"
      and body: "(if a_parent (a_nodes st x) \<noteq> T
           then let (x', st') = balance st (a_parent (a_nodes st x)) in f st' x'
           else Some (x, st)) = Some y"
    show "same_ivs st (snd y)"
    proof (cases "a_parent (a_nodes st x) \<noteq> T")
      case True
      with body have "f (snd (balance st (a_parent (a_nodes st x)))) (fst (balance st (a_parent (a_nodes st x)))) = Some y"
        by (simp add: split_beta)
      from IH [OF this] show ?thesis
        by (rule same_ivs_trans [OF same_ivs_balance])
    next
      case False
      with body show ?thesis by auto
    qed
  qed
  then show ?thesis by simp
qed

lemma a_insert_frame:
  assumes "a_insert st low high = Some st'"
  shows "a_len st' = i16 (a_len st + 1) \<and>
     a_low (a_nodes st' (a_len st)) = low \<and> a_high (a_nodes st' (a_len st)) = high \<and>
     (\<forall>i. i \<noteq> a_len st \<longrightarrow>
        a_low (a_nodes st' i) = a_low (a_nodes st i) \<and> a_high (a_nodes st' i) = a_high (a_nodes st i))"
proof -
  define st2 where "st2 = init_node (st\<lparr>a_len := i16 (a_len st + 1)\<rparr>) (a_len st) low high"
  define link where "link = (\<lambda>p. set_parent (if low < a_low (a_nodes st2 p) then set_left st2 p (a_len st)
               else set_right st2 p (a_len st)) (a_len st) p)"
  have st2: "a_len st2 = i16 (a_len st + 1)" "a_low (a_nodes st2 (a_len st)) = low"
    "a_high (a_nodes st2 (a_len st)) = high"
    "\<And>i. i \<noteq> a_len st \<Longrightarrow> a_nodes st2 i = a_nodes st i"
    by (simp_all add: st2_def init_node_def)
  have eq: "a_insert st low high =
     (if a_root st2 = T then Some (st2\<lparr>a_root := a_len st\<rparr>)
      else
        Option.bind (insert_descend st2 low (a_root st2) T) (\<lambda>p.
          Option.bind (insert_ascend (link p) (a_len st)) (\<lambda>(x, st5). Some (st5\<lparr>a_root := x\<rparr>))))"
    by (simp add: a_insert_def Let_def st2_def link_def cong: if_cong)
  have "same_ivs st2 st'"
  proof (cases "a_root st2 = T")
    case True
    with assms show ?thesis
      by (auto simp: eq same_ivs_def)
  next
    case False
    with assms obtain p x st5 where
      asc: "insert_ascend (link p) (a_len st) = Some (x, st5)"
      and st': "st' = st5\<lparr>a_root := x\<rparr>"
      by (auto simp: eq bind_eq_Some_conv)
    have "same_ivs st2 (link p)"
      unfolding link_def by (intro same_ivs_ops same_ivs_refl)
    from same_ivs_trans [OF this same_ivs_insert_ascend [OF asc]]
    show ?thesis unfolding st' by (simp add: same_ivs_def)
  qed
  with st2 show ?thesis
    by (auto simp: same_ivs_def)
qed

subsection \<open>Isolated interval lists\<close>

lemma iso_list_Nil [simp]: "iso_list []"
  by (simp add: iso_list_def)

lemma iso_list_Cons: "iso_list (iv # xs) \<longleftrightarrow>
    fst iv \<le> snd iv \<and> (\<forall>y\<in>set xs. snd iv + 1 < fst y) \<and> iso_list xs"
  by (auto simp: iso_list_def)

lemma iso_list_append: "iso_list (xs @ ys) \<longleftrightarrow>
    iso_list xs \<and> iso_list ys \<and> (\<forall>x\<in>set xs. \<forall>y\<in>set ys. snd x + 1 < fst y)"
  by (auto simp: iso_list_def sorted_wrt_append)

lemma cover_Nil [simp]: "cover [] = {}"
  by (simp add: cover_def)

lemma cover_Cons [simp]: "cover (iv # xs) = {fst iv..snd iv} \<union> cover xs"
  by (auto simp: cover_def)

lemma cover_append [simp]: "cover (xs @ ys) = cover xs \<union> cover ys"
  by (auto simp: cover_def)

lemma cover_iff: "i \<in> cover xs \<longleftrightarrow> (\<exists>iv\<in>set xs. fst iv \<le> i \<and> i \<le> snd iv)"
  by (simp add: cover_def split_beta)

lemma low_of_le: "low_of lo xs \<le> lo"
  by (induction xs) auto

lemma high_of_ge: "hi \<le> high_of hi ys"
  by (induction ys) auto

lemma low_of_all: "\<forall>iv\<in>set xs. snd iv + 1 < lo \<Longrightarrow> low_of lo xs = lo"
  by (induction xs) auto

lemma takeWhile_all: "\<forall>iv\<in>set xs. P iv \<Longrightarrow> takeWhile P xs = xs"
  by (induction xs) auto

lemma low_of_append_below:
  "\<forall>iv\<in>set xs. snd iv + 1 < lo \<Longrightarrow> low_of lo (xs @ ys) = low_of lo ys"
  by (induction xs) auto

lemma low_of_append_stop:
  "\<not> snd iv + 1 < lo \<Longrightarrow> lo \<le> fst iv \<Longrightarrow> low_of lo (xs @ iv # ys) = low_of lo xs"
  by (induction xs) auto

lemma high_of_append_stop:
  "\<not> fst iv \<le> hi + 1 \<Longrightarrow> high_of hi (xs @ iv # ys) = high_of hi xs"
  by (induction xs) auto

lemma high_of_far: "\<forall>iv\<in>set ys. hi + 1 < fst iv \<Longrightarrow> high_of hi ys = hi"
  by (induction ys) auto

lemma high_of_append_above:
  "\<forall>iv\<in>set xs. fst iv \<le> hi + 1 \<and> snd iv \<le> hi \<Longrightarrow> high_of hi (xs @ ys) = high_of hi ys"
  using high_of_ge [of hi ys] by (induction xs) auto

lemma left_part:
  assumes "iso_list xs" "\<forall>iv\<in>set xs. snd iv + 1 < s" "lo \<le> s"
  shows "iso_list (takeWhile (\<lambda>iv. snd iv + 1 < lo) xs) \<and>
     (\<forall>iv\<in>set (takeWhile (\<lambda>iv. snd iv + 1 < lo) xs). snd iv + 1 < low_of lo xs) \<and>
     cover (takeWhile (\<lambda>iv. snd iv + 1 < lo) xs) \<union> {low_of lo xs..s - 1} = cover xs \<union> {lo..s - 1}"
  using assms
proof (induction xs)
  case Nil
  then show ?case by simp
next
  case (Cons iv xs)
  show ?case
  proof (cases "snd iv + 1 < lo")
    case True
    from Cons.prems have iso: "iso_list xs" and b: "\<forall>iv\<in>set xs. snd iv + 1 < s"
      and sep: "\<forall>y\<in>set xs. snd iv + 1 < fst y" and ne: "fst iv \<le> snd iv"
      by (auto simp: iso_list_Cons)
    from Cons.IH [OF iso b Cons.prems(3)] have IH:
      "iso_list (takeWhile (\<lambda>iv. snd iv + 1 < lo) xs)"
      "\<forall>iv\<in>set (takeWhile (\<lambda>iv. snd iv + 1 < lo) xs). snd iv + 1 < low_of lo xs"
      "cover (takeWhile (\<lambda>iv. snd iv + 1 < lo) xs) \<union> {low_of lo xs..s - 1} = cover xs \<union> {lo..s - 1}"
      by auto
    have low: "snd iv + 1 < low_of lo xs"
      using True sep by (induction xs) auto
    have sub: "set (takeWhile (\<lambda>iv. snd iv + 1 < lo) xs) \<subseteq> set xs"
      by (auto dest: set_takeWhileD)
    have 1: "iso_list (iv # takeWhile (\<lambda>iv. snd iv + 1 < lo) xs)"
      using IH(1) sep ne sub by (auto simp: iso_list_Cons)
    have 3: "{fst iv..snd iv} \<union> cover (takeWhile (\<lambda>iv. snd iv + 1 < lo) xs) \<union> {low_of lo xs..s - 1}
        = {fst iv..snd iv} \<union> cover xs \<union> {lo..s - 1}"
      using IH(3) by blast
    from True 1 low IH(2) 3 show ?thesis by simp
  next
    case False
    from Cons.prems have b: "snd iv + 1 < s" "\<forall>y\<in>set xs. snd y + 1 < s"
      and sep: "\<forall>y\<in>set xs. snd iv + 1 < fst y" and ne: "fst iv \<le> snd iv"
      and isoxs: "iso_list xs"
      by (auto simp: iso_list_Cons)
    have c: "cover xs \<subseteq> {fst iv..s - 1}"
    proof
      fix i assume "i \<in> cover xs"
      then obtain y where y: "y \<in> set xs" "fst y \<le> i" "i \<le> snd y" by (auto simp: cover_iff)
      with sep b ne show "i \<in> {fst iv..s - 1}" by fastforce
    qed
    have "i \<in> {min (fst iv) lo..s - 1} \<longleftrightarrow> i \<in> {fst iv..snd iv} \<union> cover xs \<union> {lo..s - 1}" for i
      using False b(1) ne subsetD [OF c, of i] by (cases "i \<in> cover xs") (auto simp: min_def)
    then have "{min (fst iv) lo..s - 1} = {fst iv..snd iv} \<union> cover xs \<union> {lo..s - 1}"
      by blast
    with False show ?thesis by simp
  qed
qed

lemma right_part:
  assumes "iso_list ys" "\<forall>iv\<in>set ys. e + 1 < fst iv" "e \<le> hi"
  shows "iso_list (dropWhile (\<lambda>iv. fst iv \<le> hi + 1) ys) \<and>
     (\<forall>iv\<in>set (dropWhile (\<lambda>iv. fst iv \<le> hi + 1) ys). high_of hi ys + 1 < fst iv) \<and>
     cover (dropWhile (\<lambda>iv. fst iv \<le> hi + 1) ys) \<union> {e + 1..high_of hi ys} = cover ys \<union> {e + 1..hi}"
  using assms
proof (induction ys arbitrary: e)
  case Nil
  then show ?case by simp
next
  case (Cons iv ys)
  from Cons.prems have iso: "iso_list ys" and sep: "\<forall>y\<in>set ys. snd iv + 1 < fst y"
    and ne: "fst iv \<le> snd iv" and a: "e + 1 < fst iv"
    by (auto simp: iso_list_Cons)
  show ?case
  proof (cases "fst iv \<le> hi + 1")
    case True
    show ?thesis
    proof (cases "snd iv \<le> hi")
      case le: True
      from Cons.IH [OF iso sep le] have IH:
        "iso_list (dropWhile (\<lambda>iv. fst iv \<le> hi + 1) ys)"
        "\<forall>y\<in>set (dropWhile (\<lambda>iv. fst iv \<le> hi + 1) ys). high_of hi ys + 1 < fst y"
        "cover (dropWhile (\<lambda>iv. fst iv \<le> hi + 1) ys) \<union> {snd iv + 1..high_of hi ys} = cover ys \<union> {snd iv + 1..hi}"
        by auto
      have m: "max (snd iv) (high_of hi ys) = high_of hi ys"
        using le high_of_ge [of hi ys] by simp
      have "cover (dropWhile (\<lambda>iv. fst iv \<le> hi + 1) ys) \<union> {e + 1..high_of hi ys}
          = {fst iv..snd iv} \<union> cover ys \<union> {e + 1..hi}"
      proof -
        have "{e + 1..high_of hi ys} = {e + 1..snd iv} \<union> {snd iv + 1..high_of hi ys}"
          using a ne le high_of_ge [of hi ys] by auto
        moreover have "{e + 1..hi} = {e + 1..snd iv} \<union> {snd iv + 1..hi}"
          using a ne le by auto
        moreover have "{e + 1..snd iv} \<union> {fst iv..snd iv} = {e + 1..snd iv}"
          using a by auto
        ultimately show ?thesis using IH(3) by blast
      qed
      with True IH(1,2) m show ?thesis by simp
    next
      case gt: False
      have far: "\<forall>y\<in>set ys. hi + 1 < fst y" using sep gt by auto
      then have h: "high_of hi ys = hi" by (rule high_of_far)
      have d: "dropWhile (\<lambda>iv. fst iv \<le> hi + 1) ys = ys"
        using far by (cases ys) auto
      have "cover ys \<union> {e + 1..snd iv} = {fst iv..snd iv} \<union> cover ys \<union> {e + 1..hi}"
        using a gt True by auto
      with True gt h d iso sep show ?thesis by (simp add: max_def)
    qed
  next
    case False
    with Cons.prems sep a ne show ?thesis by (auto simp: iso_list_Cons)
  qed
qed

lemma merge_iso_cover:
  assumes iso: "iso_list (xs @ (s, e) # ys)" and se: "start \<le> en"
    and meet: "\<not> en + 1 < s" "\<not> e + 1 < start"
    and lo: "lo = min s start" and hi: "hi = max e en"
  shows "iso_list (takeWhile (\<lambda>iv. snd iv + 1 < lo) xs @ (low_of lo xs, high_of hi ys) #
            dropWhile (\<lambda>iv. fst iv \<le> hi + 1) ys)"
    and "cover (takeWhile (\<lambda>iv. snd iv + 1 < lo) xs @ (low_of lo xs, high_of hi ys) #
            dropWhile (\<lambda>iv. fst iv \<le> hi + 1) ys) = cover (xs @ (s, e) # ys) \<union> {start..en}"
proof -
  from iso have ix: "iso_list xs" and iy: "iso_list ys" and ne: "s \<le> e"
    and bx: "\<forall>iv\<in>set xs. snd iv + 1 < s" and bys: "\<forall>iv\<in>set ys. e + 1 < fst iv"
    by (auto simp: iso_list_append iso_list_Cons)
  have los: "lo \<le> s" and ehi: "e \<le> hi" using lo hi by auto
  note L = left_part [OF ix bx los] and R = right_part [OF iy bys ehi]
  let ?xs' = "takeWhile (\<lambda>iv. snd iv + 1 < lo) xs" and ?ys' = "dropWhile (\<lambda>iv. fst iv \<le> hi + 1) ys"
  have n1: "low_of lo xs \<le> s" using low_of_le [of lo xs] los by simp
  have n2: "e \<le> high_of hi ys" using high_of_ge [of hi ys] ehi by simp
  show "iso_list (?xs' @ (low_of lo xs, high_of hi ys) # ?ys')"
    using L R n1 n2 ne by (fastforce simp: iso_list_append iso_list_Cons)
  have mid: "{low_of lo xs..high_of hi ys} = {low_of lo xs..s - 1} \<union> {s..e} \<union> {e + 1..high_of hi ys}"
    using n1 n2 ne by auto
  have lh: "{lo..s - 1} \<union> {s..e} \<union> {e + 1..hi} = {s..e} \<union> {start..en}"
    using lo hi se meet ne by (auto simp: min_def max_def)
  have "cover ?xs' \<union> {low_of lo xs..high_of hi ys} \<union> cover ?ys'
      = (cover ?xs' \<union> {low_of lo xs..s - 1}) \<union> {s..e} \<union> (cover ?ys' \<union> {e + 1..high_of hi ys})"
    using mid by blast
  also have "\<dots> = (cover xs \<union> {lo..s - 1}) \<union> {s..e} \<union> (cover ys \<union> {e + 1..hi})"
    using L R by simp
  also have "\<dots> = cover xs \<union> ({lo..s - 1} \<union> {s..e} \<union> {e + 1..hi}) \<union> cover ys"
    by blast
  also have "\<dots> = cover xs \<union> ({s..e} \<union> {start..en}) \<union> cover ys"
    using lh by simp
  finally show "cover (?xs' @ (low_of lo xs, high_of hi ys) # ?ys') = cover (xs @ (s, e) # ys) \<union> {start..en}"
    by (simp add: Un_ac)
qed

lemma descend_left_iso:
  assumes "iso_list (xs @ (s, e) # ys)" "iso_list zs" "cover zs = cover xs \<union> {start..en}" "en + 1 < s"
  shows "iso_list (zs @ (s, e) # ys)"
proof -
  have "snd z + 1 < s" if "z \<in> set zs" for z
  proof -
    from that assms(2) have "fst z \<le> snd z" by (auto simp: iso_list_def)
    with that have "snd z \<in> cover zs" by (auto simp: cover_iff)
    with assms(3) have "snd z \<in> cover xs \<or> snd z \<le> en" by auto
    then show ?thesis
    proof
      assume "snd z \<in> cover xs"
      then obtain x where "x \<in> set xs" "snd z \<le> snd x" by (auto simp: cover_iff)
      with assms(1) show ?thesis by (fastforce simp: iso_list_append iso_list_Cons)
    next
      assume "snd z \<le> en" with assms(4) show ?thesis by simp
    qed
  qed
  with assms(1,2) show ?thesis
    by (fastforce simp: iso_list_append iso_list_Cons)
qed

lemma descend_right_iso:
  assumes "iso_list (xs @ (s, e) # ys)" "iso_list zs" "cover zs = cover ys \<union> {start..en}" "e + 1 < start"
  shows "iso_list (xs @ (s, e) # zs)"
proof -
  have "e + 1 < fst z" if "z \<in> set zs" for z
  proof -
    from that assms(2) have "fst z \<le> snd z" by (auto simp: iso_list_def)
    with that have "fst z \<in> cover zs" by (auto simp: cover_iff)
    with assms(3) have "fst z \<in> cover ys \<or> start \<le> fst z" by auto
    then show ?thesis
    proof
      assume "fst z \<in> cover ys"
      then obtain y where "y \<in> set ys" "fst y \<le> fst z" by (auto simp: cover_iff)
      with assms(1) show ?thesis by (fastforce simp: iso_list_append iso_list_Cons)
    next
      assume "start \<le> fst z" with assms(4) show ?thesis by simp
    qed
  qed
  with assms(1,2) show ?thesis
    by (fastforce simp: iso_list_append iso_list_Cons)
qed

lemma covered_meet:
  assumes "iso_list (xs @ (s, e) # ys)" "{start..en} \<subseteq> cover (xs @ (s, e) # ys)" "start \<le> en"
    "\<not> en + 1 < s" "\<not> e + 1 < start"
  shows "s \<le> start \<and> en \<le> e"
proof -
  from assms(1) have bx: "\<forall>iv\<in>set xs. snd iv + 1 < s" and bys: "\<forall>iv\<in>set ys. e + 1 < fst iv"
    and ne: "s \<le> e"
    by (auto simp: iso_list_append iso_list_Cons)
  have nl: "s - 1 \<notin> cover (xs @ (s, e) # ys)"
    using bx bys ne by (auto simp: cover_iff)
  have nr: "e + 1 \<notin> cover (xs @ (s, e) # ys)"
    using bx bys ne by (auto simp: cover_iff)
  have "s \<le> start"
  proof (rule ccontr)
    assume "\<not> s \<le> start"
    with assms(3,4) have "s - 1 \<in> {start..en}" by auto
    with assms(2) nl show False by blast
  qed
  moreover have "en \<le> e"
  proof (rule ccontr)
    assume "\<not> en \<le> e"
    with assms(3,5) have "e + 1 \<in> {start..en}" by auto
    with assms(2) nr show False by blast
  qed
  ultimately show ?thesis ..
qed

lemma covered_left:
  assumes "iso_list (xs @ (s, e) # ys)" "{start..en} \<subseteq> cover (xs @ (s, e) # ys)" "en + 1 < s"
  shows "{start..en} \<subseteq> cover xs"
proof
  fix i assume i: "i \<in> {start..en}"
  with assms(2) have "i \<in> cover (xs @ (s, e) # ys)" by blast
  moreover have "i \<notin> {s..e}" using i assms(3) by auto
  moreover have "i \<notin> cover ys"
    using i assms(1,3) by (fastforce simp: cover_iff iso_list_append iso_list_Cons)
  ultimately show "i \<in> cover xs" by auto
qed

lemma covered_right:
  assumes "iso_list (xs @ (s, e) # ys)" "{start..en} \<subseteq> cover (xs @ (s, e) # ys)" "e + 1 < start"
  shows "{start..en} \<subseteq> cover ys"
proof
  fix i assume i: "i \<in> {start..en}"
  with assms(2) have "i \<in> cover (xs @ (s, e) # ys)" by blast
  moreover have "i \<notin> {s..e}" using i assms(3) by auto
  moreover have "i \<notin> cover xs"
    using i assms(1,3) by (fastforce simp: cover_iff iso_list_append iso_list_Cons)
  ultimately show "i \<in> cover ys" by auto
qed

subsection \<open>diet3.c: the arena and its trees\<close>

lemma T_not_arena [simp]: "\<not> T < N3" "h < N3 \<Longrightarrow> h \<noteq> T"
  by (auto simp: T_def N3_def)

lemma i16_id: "- 32768 \<le> v \<Longrightarrow> v \<le> 32767 \<Longrightarrow> i16 v = v"
  by (simp add: i16_def)

lemma ext3_refl [simp]: "d3_len st \<le> N3 \<Longrightarrow> ext3 st st"
  by (simp add: ext3_def)

lemma ext3_trans: "ext3 a b \<Longrightarrow> ext3 b c \<Longrightarrow> ext3 a c"
  by (auto simp: ext3_def)

lemma ext3_blit [simp]: "ext3 st (d3_blit st' a b) = ext3 st st'" "ext3 (d3_blit st a b) st' = ext3 st st'"
  by (simp_all add: ext3_def d3_blit_def)

lemma rep3_frame:
  "rep3 nd h t \<Longrightarrow> (\<And>i. 0 \<le> i \<Longrightarrow> i \<le> h \<Longrightarrow> h < N3 \<Longrightarrow> nd' i = nd i) \<Longrightarrow> rep3 nd' h t"
proof (induction t arbitrary: h)
  case Leaf
  then show ?case by simp
next
  case (Node l iv r)
  from Node.prems(1) have h: "0 \<le> h" "h < N3" by simp_all
  then have eq: "nd' h = nd h" using Node.prems(2) by simp
  have l: "rep3 nd' (n3_left (nd h)) l"
  proof (rule Node.IH(1))
    show "rep3 nd (n3_left (nd h)) l" using Node.prems(1) by simp
    fix i assume "0 \<le> i" "i \<le> n3_left (nd h)" "n3_left (nd h) < N3"
    with Node.prems(1) have "i \<le> h" by auto
    with \<open>0 \<le> i\<close> h show "nd' i = nd i" by (intro Node.prems(2))
  qed
  have r: "rep3 nd' (n3_right (nd h)) r"
  proof (rule Node.IH(2))
    show "rep3 nd (n3_right (nd h)) r" using Node.prems(1) by simp
    fix i assume "0 \<le> i" "i \<le> n3_right (nd h)" "n3_right (nd h) < N3"
    with Node.prems(1) have "i \<le> h" by auto
    with \<open>0 \<le> i\<close> h show "nd' i = nd i" by (intro Node.prems(2))
  qed
  from Node.prems(1) l r show ?case by (simp add: eq)
qed

lemma wf3_ext:
  assumes "wf3 st h t" "ext3 st st'"
  shows "wf3 st' h t"
proof -
  have "rep3 (d3_nodes st') h t"
  proof (rule rep3_frame)
    show "rep3 (d3_nodes st) h t" using assms(1) by (simp add: wf3_def)
    fix i assume "0 \<le> i" "i \<le> h" "h < N3"
    with assms show "d3_nodes st' i = d3_nodes st i"
      by (auto simp: wf3_def ext3_def)
  qed
  with assms show ?thesis by (auto simp: wf3_def ext3_def)
qed

lemma wf3_blit [simp]: "wf3 (d3_blit st a b) h t = wf3 st h t"
  by (simp add: wf3_def d3_blit_def)

lemma wf3_Leaf [simp]: "wf3 st h Leaf \<longleftrightarrow> h = T \<and> 0 \<le> d3_len st \<and> d3_len st \<le> N3"
  by (auto simp: wf3_def)

lemma wf3_len: "wf3 st h t \<Longrightarrow> 0 \<le> d3_len st \<and> d3_len st \<le> N3"
  by (simp add: wf3_def)

lemma wf3_Node_T: "wf3 st h (Node l iv r) \<Longrightarrow> h \<noteq> T"
  by (auto simp: wf3_def)

lemma wf3_T: "wf3 st T t \<Longrightarrow> t = Leaf"
  by (cases t) (auto simp: wf3_def)

lemma wf3_NodeD:
  assumes "wf3 st h (Node l iv r)"
  shows "h \<noteq> T" "iv = (n3_start (d3_nodes st h), n3_end (d3_nodes st h))"
    "wf3 st (n3_left (d3_nodes st h)) l" "wf3 st (n3_right (d3_nodes st h)) r"
    "0 \<le> h" "h < d3_len st"
  using assms by (auto simp: wf3_def)

lemma wf3_cases:
  assumes "wf3 st h t"
  obtains (Leaf) "h = T" "t = Leaf"
  | (Node) l iv r where "h \<noteq> T" "t = Node l iv r"
  using assms by (cases t) (auto simp: wf3_def)

lemma wf3_height: "wf3 st h t \<Longrightarrow> 0 \<le> d3_height st h \<and> d3_height st h \<le> d3_len st"
  by (cases t) (auto simp: wf3_def d3_height_def)

lemma wf3_height_pos: "wf3 st h t \<Longrightarrow> 0 < d3_height st h \<Longrightarrow> h \<noteq> T"
  by (auto simp: d3_height_def)

lemma post3_bind:
  assumes "post3 st m Q"
    and "\<And>v st1. ext3 st st1 \<Longrightarrow> Q v st1 \<Longrightarrow> post3 st1 (f (v, st1)) R"
  shows "post3 st (bindr m f) R"
proof -
  from assms(1) obtain r where r: "m = Some r"
    "r = Inl AssertionFailed \<or> (\<exists>v st'. r = Inr (v, st') \<and> ext3 st st' \<and> Q v st')"
    by (auto simp: post3_def)
  from r(2) show ?thesis
  proof
    assume "r = Inl AssertionFailed"
    with r(1) show ?thesis by (simp add: post3_def)
  next
    assume "\<exists>v st'. r = Inr (v, st') \<and> ext3 st st' \<and> Q v st'"
    then obtain v st1 where v: "r = Inr (v, st1)" "ext3 st st1" "Q v st1" by blast
    from assms(2) [OF v(2,3)] obtain r2 where r2: "f (v, st1) = Some r2"
      "r2 = Inl AssertionFailed \<or> (\<exists>w st2. r2 = Inr (w, st2) \<and> ext3 st1 st2 \<and> R w st2)"
      by (auto simp: post3_def)
    with r(1) v show ?thesis
      by (auto simp: post3_def intro: ext3_trans)
  qed
qed

lemma post3_weaken: "post3 st m Q \<Longrightarrow> (\<And>v st'. ext3 st st' \<Longrightarrow> Q v st' \<Longrightarrow> R v st') \<Longrightarrow> post3 st m R"
  by (auto simp: post3_def)

lemma post3_ok: "d3_len st \<le> N3 \<Longrightarrow> Q v st \<Longrightarrow> post3 st (ok (v, st)) Q"
  by (simp add: post3_def ok_def)

lemma post3_fail [simp]: "post3 st (fail AssertionFailed) Q"
  by (simp add: post3_def fail_def)

lemma post3_new_node:
  assumes "0 \<le> d3_len st" "d3_len st \<le> N3"
  shows "post3 st (d3_new_node st s e h l r)
     (\<lambda>n st'. n = d3_len st \<and> d3_len st' = d3_len st + 1 \<and> d3_blits st' = d3_blits st \<and>
        d3_nodes st' = (d3_nodes st)(n := \<lparr>n3_start = s, n3_end = e, n3_height = h,
          n3_left = l, n3_right = r\<rparr>))"
proof (cases "d3_len st < N3")
  case True
  with assms have "i16 (d3_len st + 1) = d3_len st + 1"
    by (intro i16_id) (auto simp: N3_def)
  with True assms show ?thesis
    by (simp add: d3_new_node_def post3_def ok_def ext3_def Let_def)
next
  case False
  then show ?thesis by (simp add: d3_new_node_def)
qed

lemma post3_node:
  assumes l: "wf3 st l ta" and r: "wf3 st r tb"
    and h: "0 \<le> h" "h \<le> d3_len st + 1"
  shows "post3 st (d3_new_node st s e h l r) (\<lambda>n st'. wf3 st' n (Node ta (s, e) tb) \<and> d3_blits st' = d3_blits st)"
proof -
  from l have len: "0 \<le> d3_len st" "d3_len st \<le> N3" by (auto dest: wf3_len)
  show ?thesis
  proof (rule post3_weaken [OF post3_new_node [OF len]])
    fix n st'
    assume e: "ext3 st st'"
      and n: "n = d3_len st \<and> d3_len st' = d3_len st + 1 \<and> d3_blits st' = d3_blits st \<and>
        d3_nodes st' = (d3_nodes st)(n := \<lparr>n3_start = s, n3_end = e, n3_height = h,
          n3_left = l, n3_right = r\<rparr>)"
    from l e have l': "wf3 st' l ta" by (rule wf3_ext)
    from r e have r': "wf3 st' r tb" by (rule wf3_ext)
    from l have lb: "l = T \<or> l < d3_len st" by (simp add: wf3_def)
    from r have rb: "r = T \<or> r < d3_len st" by (simp add: wf3_def)
    from e n have nb: "n < N3" by (simp add: ext3_def)
    show "wf3 st' n (Node ta (s, e) tb) \<and> d3_blits st' = d3_blits st"
      using l' r' lb rb n len h nb e
      by (simp add: wf3_def ext3_def)
  qed
qed

lemma post3_create:
  assumes l: "wf3 st l ta" and r: "wf3 st r tb"
  shows "post3 st (d3_create st s e l r) (\<lambda>n st'. wf3 st' n (Node ta (s, e) tb) \<and> d3_blits st' = d3_blits st)"
proof -
  from wf3_height [OF l] wf3_height [OF r] wf3_len [OF l]
  have b: "0 \<le> 1 + max (d3_height st l) (d3_height st r)"
    "1 + max (d3_height st l) (d3_height st r) \<le> d3_len st + 1" "d3_len st \<le> N3"
    by auto
  then have "d3_height_join st l r = 1 + max (d3_height st l) (d3_height st r)"
    unfolding d3_height_join_def by (intro i16_id) (auto simp: N3_def)
  with b show ?thesis
    unfolding d3_create_def using post3_node [OF l r, of "d3_height_join st l r" s e] by simp
qed

lemma stores3I: "wf3 st h t \<Longrightarrow> inorder t = xs \<Longrightarrow> stores3 st h xs"
  by (auto simp: stores3_def)

lemma post3_balance:
  assumes l: "wf3 st l ta" and r: "wf3 st r tb"
  shows "post3 st (d3_balance st s e l r)
     (\<lambda>h st'. stores3 st' h (inorder ta @ (s, e) # inorder tb) \<and> h \<noteq> T \<and> d3_blits st' = d3_blits st)"
proof -
  note hl = wf3_height [OF l] and hr = wf3_height [OF r]
  consider (L) "d3_height st l > d3_height st r + bal_const"
    | (R) "\<not> d3_height st l > d3_height st r + bal_const" "d3_height st r > d3_height st l + bal_const"
    | (M) "\<not> d3_height st l > d3_height st r + bal_const" "\<not> d3_height st r > d3_height st l + bal_const"
    by blast
  then show ?thesis
  proof cases
    case L
    with hr have "0 < d3_height st l" by (simp add: bal_const_def)
    then have lT: "l \<noteq> T" by (simp add: d3_height_def split: if_splits)
    with l obtain tll lv tlr where ta: "ta = Node tll lv tlr"
      by (cases ta) (auto simp: wf3_def)
    note d = wf3_NodeD [OF l [unfolded ta]]
    let ?ll = "n3_left (d3_nodes st l)" and ?lr = "n3_right (d3_nodes st l)"
    let ?ls = "n3_start (d3_nodes st l)" and ?le = "n3_end (d3_nodes st l)"
    show ?thesis
    proof (cases "d3_height st ?ll \<ge> d3_height st ?lr")
      case True
      have "post3 st (bindr (d3_create st s e ?lr r) (\<lambda>(c, st1). d3_create st1 ?ls ?le ?ll c))
         (\<lambda>h st'. stores3 st' h (inorder ta @ (s, e) # inorder tb) \<and> h \<noteq> T \<and> d3_blits st' = d3_blits st)"
      proof (rule post3_bind [OF post3_create [OF d(4) r]])
        fix c st1
        assume e1: "ext3 st st1" and c: "wf3 st1 c (Node tlr (s, e) tb) \<and> d3_blits st1 = d3_blits st"
        from d(3) e1 have ll1: "wf3 st1 ?ll tll" by (rule wf3_ext)
        from c have c1: "wf3 st1 c (Node tlr (s, e) tb)" by simp
        show "post3 st1 (case (c, st1) of (c, st1) \<Rightarrow> d3_create st1 ?ls ?le ?ll c)
           (\<lambda>h st'. stores3 st' h (inorder ta @ (s, e) # inorder tb) \<and> h \<noteq> T \<and> d3_blits st' = d3_blits st)"
          unfolding prod.case
        proof (rule post3_weaken [OF post3_create [OF ll1 c1]])
          fix n st'
          assume "wf3 st' n (Node tll (?ls, ?le) (Node tlr (s, e) tb)) \<and> d3_blits st' = d3_blits st1"
          with c d(2) ta show "stores3 st' n (inorder ta @ (s, e) # inorder tb) \<and> n \<noteq> T \<and> d3_blits st' = d3_blits st"
            by (auto simp: stores3_def dest: wf3_Node_T intro!: exI [of _ "Node tll (?ls, ?le) (Node tlr (s, e) tb)"])
        qed
      qed
      with L lT True show ?thesis
        by (simp add: d3_balance_def Let_def)
    next
      case False
      with wf3_height [OF d(3)] have "0 < d3_height st ?lr" by simp
      then have lrT: "?lr \<noteq> T" by (simp add: d3_height_def split: if_splits)
      with d(4) obtain tlrl lrv tlrr where tlr: "tlr = Node tlrl lrv tlrr"
        by (cases tlr) (auto simp: wf3_def)
      note dd = wf3_NodeD [OF d(4) [unfolded tlr]]
      let ?lrl = "n3_left (d3_nodes st ?lr)" and ?lrr = "n3_right (d3_nodes st ?lr)"
      let ?lrs = "n3_start (d3_nodes st ?lr)" and ?lre = "n3_end (d3_nodes st ?lr)"
      have "post3 st (bindr (d3_create st ?ls ?le ?ll ?lrl) (\<lambda>(a, st1).
                bindr (d3_create st1 s e ?lrr r) (\<lambda>(b, st2).
                d3_create st2 ?lrs ?lre a b)))
         (\<lambda>h st'. stores3 st' h (inorder ta @ (s, e) # inorder tb) \<and> h \<noteq> T \<and> d3_blits st' = d3_blits st)"
      proof (rule post3_bind [OF post3_create [OF d(3) dd(3)]])
        fix a st1
        assume e1: "ext3 st st1" and a: "wf3 st1 a (Node tll (?ls, ?le) tlrl) \<and> d3_blits st1 = d3_blits st"
        from dd(4) e1 have lrr1: "wf3 st1 ?lrr tlrr" by (rule wf3_ext)
        from r e1 have r1: "wf3 st1 r tb" by (rule wf3_ext)
        show "post3 st1 (case (a, st1) of (a, st1) \<Rightarrow>
                bindr (d3_create st1 s e ?lrr r) (\<lambda>(b, st2). d3_create st2 ?lrs ?lre a b))
           (\<lambda>h st'. stores3 st' h (inorder ta @ (s, e) # inorder tb) \<and> h \<noteq> T \<and> d3_blits st' = d3_blits st)"
          unfolding prod.case
        proof (rule post3_bind [OF post3_create [OF lrr1 r1]])
          fix b st2
          assume e2: "ext3 st1 st2" and b: "wf3 st2 b (Node tlrr (s, e) tb) \<and> d3_blits st2 = d3_blits st1"
          from a e2 have a2: "wf3 st2 a (Node tll (?ls, ?le) tlrl)" by (auto intro: wf3_ext)
          from b have b2: "wf3 st2 b (Node tlrr (s, e) tb)" by simp
          show "post3 st2 (case (b, st2) of (b, st2) \<Rightarrow> d3_create st2 ?lrs ?lre a b)
             (\<lambda>h st'. stores3 st' h (inorder ta @ (s, e) # inorder tb) \<and> h \<noteq> T \<and> d3_blits st' = d3_blits st)"
            unfolding prod.case
          proof (rule post3_weaken [OF post3_create [OF a2 b2]])
            fix n st'
            assume "wf3 st' n (Node (Node tll (?ls, ?le) tlrl) (?lrs, ?lre) (Node tlrr (s, e) tb)) \<and>
               d3_blits st' = d3_blits st2"
            with a b d(2) dd(2) ta tlr
            show "stores3 st' n (inorder ta @ (s, e) # inorder tb) \<and> n \<noteq> T \<and> d3_blits st' = d3_blits st"
              by (auto simp: stores3_def dest: wf3_Node_T
                  intro!: exI [of _ "Node (Node tll (?ls, ?le) tlrl) (?lrs, ?lre) (Node tlrr (s, e) tb)"])
          qed
        qed
      qed
      with L lT False lrT show ?thesis
        by (simp add: d3_balance_def Let_def)
    qed
  next
    case R
    with hl have "0 < d3_height st r" by (simp add: bal_const_def)
    then have rT: "r \<noteq> T" by (simp add: d3_height_def split: if_splits)
    with r obtain trl rv trr where tb: "tb = Node trl rv trr"
      by (cases tb) (auto simp: wf3_def)
    note d = wf3_NodeD [OF r [unfolded tb]]
    let ?rl = "n3_left (d3_nodes st r)" and ?rr = "n3_right (d3_nodes st r)"
    let ?rs = "n3_start (d3_nodes st r)" and ?re = "n3_end (d3_nodes st r)"
    show ?thesis
    proof (cases "d3_height st ?rr \<ge> d3_height st ?rl")
      case True
      have "post3 st (bindr (d3_create st s e l ?rl) (\<lambda>(c, st1). d3_create st1 ?rs ?re c ?rr))
         (\<lambda>h st'. stores3 st' h (inorder ta @ (s, e) # inorder tb) \<and> h \<noteq> T \<and> d3_blits st' = d3_blits st)"
      proof (rule post3_bind [OF post3_create [OF l d(3)]])
        fix c st1
        assume e1: "ext3 st st1" and c: "wf3 st1 c (Node ta (s, e) trl) \<and> d3_blits st1 = d3_blits st"
        from d(4) e1 have rr1: "wf3 st1 ?rr trr" by (rule wf3_ext)
        from c have c1: "wf3 st1 c (Node ta (s, e) trl)" by simp
        show "post3 st1 (case (c, st1) of (c, st1) \<Rightarrow> d3_create st1 ?rs ?re c ?rr)
           (\<lambda>h st'. stores3 st' h (inorder ta @ (s, e) # inorder tb) \<and> h \<noteq> T \<and> d3_blits st' = d3_blits st)"
          unfolding prod.case
        proof (rule post3_weaken [OF post3_create [OF c1 rr1]])
          fix n st'
          assume "wf3 st' n (Node (Node ta (s, e) trl) (?rs, ?re) trr) \<and> d3_blits st' = d3_blits st1"
          with c d(2) tb show "stores3 st' n (inorder ta @ (s, e) # inorder tb) \<and> n \<noteq> T \<and> d3_blits st' = d3_blits st"
            by (auto simp: stores3_def dest: wf3_Node_T intro!: exI [of _ "Node (Node ta (s, e) trl) (?rs, ?re) trr"])
        qed
      qed
      with R rT True show ?thesis
        by (simp add: d3_balance_def Let_def)
    next
      case False
      with wf3_height [OF d(4)] have "0 < d3_height st ?rl" by simp
      then have rlT: "?rl \<noteq> T" by (simp add: d3_height_def split: if_splits)
      with d(3) obtain trll rlv trlr where trl: "trl = Node trll rlv trlr"
        by (cases trl) (auto simp: wf3_def)
      note dd = wf3_NodeD [OF d(3) [unfolded trl]]
      let ?rll = "n3_left (d3_nodes st ?rl)" and ?rlr = "n3_right (d3_nodes st ?rl)"
      let ?rls = "n3_start (d3_nodes st ?rl)" and ?rle = "n3_end (d3_nodes st ?rl)"
      have "post3 st (bindr (d3_create st s e l ?rll) (\<lambda>(a, st1).
                bindr (d3_create st1 ?rs ?re ?rlr ?rr) (\<lambda>(b, st2).
                d3_create st2 ?rls ?rle a b)))
         (\<lambda>h st'. stores3 st' h (inorder ta @ (s, e) # inorder tb) \<and> h \<noteq> T \<and> d3_blits st' = d3_blits st)"
      proof (rule post3_bind [OF post3_create [OF l dd(3)]])
        fix a st1
        assume e1: "ext3 st st1" and a: "wf3 st1 a (Node ta (s, e) trll) \<and> d3_blits st1 = d3_blits st"
        from dd(4) e1 have rlr1: "wf3 st1 ?rlr trlr" by (rule wf3_ext)
        from d(4) e1 have rr1: "wf3 st1 ?rr trr" by (rule wf3_ext)
        show "post3 st1 (case (a, st1) of (a, st1) \<Rightarrow>
                bindr (d3_create st1 ?rs ?re ?rlr ?rr) (\<lambda>(b, st2). d3_create st2 ?rls ?rle a b))
           (\<lambda>h st'. stores3 st' h (inorder ta @ (s, e) # inorder tb) \<and> h \<noteq> T \<and> d3_blits st' = d3_blits st)"
          unfolding prod.case
        proof (rule post3_bind [OF post3_create [OF rlr1 rr1]])
          fix b st2
          assume e2: "ext3 st1 st2" and b: "wf3 st2 b (Node trlr (?rs, ?re) trr) \<and> d3_blits st2 = d3_blits st1"
          from a e2 have a2: "wf3 st2 a (Node ta (s, e) trll)" by (auto intro: wf3_ext)
          from b have b2: "wf3 st2 b (Node trlr (?rs, ?re) trr)" by simp
          show "post3 st2 (case (b, st2) of (b, st2) \<Rightarrow> d3_create st2 ?rls ?rle a b)
             (\<lambda>h st'. stores3 st' h (inorder ta @ (s, e) # inorder tb) \<and> h \<noteq> T \<and> d3_blits st' = d3_blits st)"
            unfolding prod.case
          proof (rule post3_weaken [OF post3_create [OF a2 b2]])
            fix n st'
            assume "wf3 st' n (Node (Node ta (s, e) trll) (?rls, ?rle) (Node trlr (?rs, ?re) trr)) \<and>
               d3_blits st' = d3_blits st2"
            with a b d(2) dd(2) tb trl
            show "stores3 st' n (inorder ta @ (s, e) # inorder tb) \<and> n \<noteq> T \<and> d3_blits st' = d3_blits st"
              by (auto simp: stores3_def dest: wf3_Node_T
                  intro!: exI [of _ "Node (Node ta (s, e) trll) (?rls, ?rle) (Node trlr (?rs, ?re) trr)"])
          qed
        qed
      qed
      with R rT False rlT show ?thesis
        by (simp add: d3_balance_def Let_def)
    qed
  next
    case M
    let ?h = "if d3_height st l \<ge> d3_height st r then i16 (d3_height st l + 1) else i16 (d3_height st r + 1)"
    from hl hr wf3_len [OF l] have "i16 (d3_height st l + 1) = d3_height st l + 1"
      "i16 (d3_height st r + 1) = d3_height st r + 1"
      by (auto intro!: i16_id simp: N3_def)
    with hl hr have hb: "0 \<le> ?h" "?h \<le> d3_len st + 1" by auto
    have "post3 st (d3_new_node st s e ?h l r)
       (\<lambda>h st'. stores3 st' h (inorder ta @ (s, e) # inorder tb) \<and> h \<noteq> T \<and> d3_blits st' = d3_blits st)"
      by (rule post3_weaken [OF post3_node [OF l r hb]])
         (auto simp: stores3_def dest: wf3_Node_T intro!: exI [of _ "Node ta (s, e) tb"])
    with M show ?thesis
      by (simp add: d3_balance_def Let_def)
  qed
qed

lemma stores3_ext: "stores3 st h xs \<Longrightarrow> ext3 st st' \<Longrightarrow> stores3 st' h xs"
  by (auto simp: stores3_def intro: wf3_ext)

lemma stores3_len: "stores3 st h xs \<Longrightarrow> 0 \<le> d3_len st \<and> d3_len st \<le> N3"
  by (auto simp: stores3_def dest: wf3_len)

lemma stores3_T [simp]: "stores3 st T xs \<longleftrightarrow> xs = [] \<and> 0 \<le> d3_len st \<and> d3_len st \<le> N3"
  by (auto simp: stores3_def dest: wf3_T wf3_len intro: exI [of _ Leaf])

lemma stores3_blit [simp]: "stores3 (d3_blit st a b) h xs = stores3 st h xs"
  by (simp add: stores3_def)

lemma built3_blits: "d3_blits st1 = d3_blits st \<Longrightarrow> built3 st1 xs h st' \<Longrightarrow> built3 st xs h st'"
  by (simp add: built3_def)

lemma post3_balance_built:
  assumes "stores3 st l xs" "stores3 st r ys"
  shows "post3 st (d3_balance st s e l r) (built3 st (xs @ (s, e) # ys))"
proof -
  from assms obtain ta tb where "wf3 st l ta" "inorder ta = xs" "wf3 st r tb" "inorder tb = ys"
    by (auto simp: stores3_def)
  with post3_balance [of st l ta r tb s e] show ?thesis
    by (simp add: built3_def [abs_def])
qed

lemma post3_create_built:
  assumes "stores3 st l xs" "stores3 st r ys"
  shows "post3 st (d3_create st s e l r) (built3 st (xs @ (s, e) # ys))"
proof -
  from assms obtain ta tb where t: "wf3 st l ta" "inorder ta = xs" "wf3 st r tb" "inorder tb = ys"
    by (auto simp: stores3_def)
  show ?thesis
    by (rule post3_weaken [OF post3_create [OF t(1,3)]])
       (use t in \<open>auto simp: built3_def stores3_def dest: wf3_Node_T intro!: exI [of _ "Node ta (s, e) tb"]\<close>)
qed

lemma post3_leaf_built:
  assumes "0 \<le> d3_len st" "d3_len st \<le> N3"
  shows "post3 st (d3_new_node st s e 1 T T) (built3 st [(s, e)])"
proof -
  from assms have l: "wf3 st T Leaf" by simp
  show ?thesis
    by (rule post3_weaken [OF post3_node [OF l l, of 1 s e]])
       (use assms in \<open>auto simp: built3_def stores3_def dest: wf3_Node_T intro!: exI [of _ "Node Leaf (s, e) Leaf"]\<close>)
qed

lemma post3_add:
  assumes "wf3 st tree t"
  shows "post3 st (d3_add st tree lft s e)
     (built3 st (if lft then (s, e) # inorder t else inorder t @ [(s, e)]))"
  using assms
proof (induction t arbitrary: st tree)
  case Leaf
  then show ?case
    by (subst d3_add.simps) (simp add: post3_leaf_built)
next
  case (Node tl iv tr)
  note d = wf3_NodeD [OF Node.prems]
  let ?s = "n3_start (d3_nodes st tree)" and ?e = "n3_end (d3_nodes st tree)"
  let ?l = "n3_left (d3_nodes st tree)" and ?r = "n3_right (d3_nodes st tree)"
  show ?case
  proof (cases lft)
    case True
    have "post3 st (bindr (d3_add st ?l True s e) (\<lambda>(a, st1). d3_balance st1 ?s ?e a ?r))
       (built3 st ((s, e) # inorder (Node tl iv tr)))"
    proof (rule post3_bind [where Q = "built3 st ((s, e) # inorder tl)"])
      show "post3 st (d3_add st ?l True s e) (built3 st ((s, e) # inorder tl))"
        using Node.IH(1) [OF d(3)] True by simp
    next
      fix a st1
      assume e1: "ext3 st st1" and a: "built3 st ((s, e) # inorder tl) a st1"
      from a have a1: "stores3 st1 a ((s, e) # inorder tl)" and b1: "d3_blits st1 = d3_blits st"
        by (simp_all add: built3_def)
      from d(4) e1 have r1: "stores3 st1 ?r (inorder tr)" by (auto intro: stores3I wf3_ext)
      from post3_balance_built [OF a1 r1, of ?s ?e] d(2) b1
      show "post3 st1 (case (a, st1) of (a, st1) \<Rightarrow> d3_balance st1 ?s ?e a ?r)
         (built3 st ((s, e) # inorder (Node tl iv tr)))"
        by (auto elim!: post3_weaken simp: built3_def)
    qed
    with True d(1) show ?thesis
      by (subst d3_add.simps) (simp add: Let_def)
  next
    case False
    have "post3 st (bindr (d3_add st ?r False s e) (\<lambda>(a, st1). d3_balance st1 ?s ?e ?l a))
       (built3 st (inorder (Node tl iv tr) @ [(s, e)]))"
    proof (rule post3_bind [where Q = "built3 st (inorder tr @ [(s, e)])"])
      show "post3 st (d3_add st ?r False s e) (built3 st (inorder tr @ [(s, e)]))"
        using Node.IH(2) [OF d(4)] False by simp
    next
      fix a st1
      assume e1: "ext3 st st1" and a: "built3 st (inorder tr @ [(s, e)]) a st1"
      from a have a1: "stores3 st1 a (inorder tr @ [(s, e)])" and b1: "d3_blits st1 = d3_blits st"
        by (simp_all add: built3_def)
      from d(3) e1 have l1: "stores3 st1 ?l (inorder tl)" by (auto intro: stores3I wf3_ext)
      from post3_balance_built [OF l1 a1, of ?s ?e] d(2) b1
      show "post3 st1 (case (a, st1) of (a, st1) \<Rightarrow> d3_balance st1 ?s ?e ?l a)
         (built3 st (inorder (Node tl iv tr) @ [(s, e)]))"
        by (auto elim!: post3_weaken simp: built3_def)
    qed
    with False d(1) show ?thesis
      by (subst d3_add.simps) (simp add: Let_def)
  qed
qed

lemma post3_join:
  assumes "wf3 st l ta" "wf3 st r tb"
  shows "post3 st (d3_join st s e l r) (built3 st (inorder ta @ (s, e) # inorder tb))"
  using assms
proof (induction "size ta + size tb" arbitrary: st l r ta tb rule: less_induct)
  case less
  note l = less.prems(1) and r = less.prems(2)
  show ?case
  proof (cases "l = T")
    case True
    with l have "ta = Leaf" by (auto dest: wf3_T)
    with True post3_add [OF r, of True s e] show ?thesis
      by (subst d3_join.simps) simp
  next
    case lT: False
    show ?thesis
    proof (cases "r = T")
      case True
      with r have "tb = Leaf" by (auto dest: wf3_T)
      with True lT post3_add [OF l, of False s e] show ?thesis
        by (subst d3_join.simps) simp
    next
      case rT: False
      from lT l obtain tll lv tlr where ta: "ta = Node tll lv tlr"
        by (cases ta) (auto simp: wf3_def)
      from rT r obtain trl rv trr where tb: "tb = Node trl rv trr"
        by (cases tb) (auto simp: wf3_def)
      note dl = wf3_NodeD [OF l [unfolded ta]] and dr = wf3_NodeD [OF r [unfolded tb]]
      let ?ls = "n3_start (d3_nodes st l)" and ?le = "n3_end (d3_nodes st l)"
      let ?ll = "n3_left (d3_nodes st l)" and ?lr = "n3_right (d3_nodes st l)"
      let ?lh = "n3_height (d3_nodes st l)"
      let ?rs = "n3_start (d3_nodes st r)" and ?re = "n3_end (d3_nodes st r)"
      let ?rl = "n3_left (d3_nodes st r)" and ?rr = "n3_right (d3_nodes st r)"
      let ?rh = "n3_height (d3_nodes st r)"
      consider (L) "?lh > ?rh + bal_const" | (R) "\<not> ?lh > ?rh + bal_const" "?rh > ?lh + bal_const"
        | (M) "\<not> ?lh > ?rh + bal_const" "\<not> ?rh > ?lh + bal_const"
        by blast
      then show ?thesis
      proof cases
        case L
        have "post3 st (bindr (d3_join st s e ?lr r) (\<lambda>(j, st1). d3_balance st1 ?ls ?le ?ll j))
           (built3 st (inorder ta @ (s, e) # inorder tb))"
        proof (rule post3_bind [OF less.hyps [OF _ dl(4) r]])
          show "size tlr + size tb < size ta + size tb" by (simp add: ta)
        next
          fix j st1
          assume e1: "ext3 st st1" and j: "built3 st (inorder tlr @ (s, e) # inorder tb) j st1"
          from j have j1: "stores3 st1 j (inorder tlr @ (s, e) # inorder tb)" and b1: "d3_blits st1 = d3_blits st"
            by (simp_all add: built3_def)
          from dl(3) e1 have l1: "stores3 st1 ?ll (inorder tll)" by (auto intro: stores3I wf3_ext)
          from post3_balance_built [OF l1 j1, of ?ls ?le] dl(2) b1 ta
          show "post3 st1 (case (j, st1) of (j, st1) \<Rightarrow> d3_balance st1 ?ls ?le ?ll j)
             (built3 st (inorder ta @ (s, e) # inorder tb))"
            by (auto elim!: post3_weaken simp: built3_def)
        qed
        with L lT rT show ?thesis
          by (subst d3_join.simps) (simp add: Let_def)
      next
        case R
        have "post3 st (bindr (d3_join st s e l ?rl) (\<lambda>(j, st1). d3_balance st1 ?rs ?re j ?rr))
           (built3 st (inorder ta @ (s, e) # inorder tb))"
        proof (rule post3_bind [OF less.hyps [OF _ l dr(3)]])
          show "size ta + size trl < size ta + size tb" by (simp add: tb)
        next
          fix j st1
          assume e1: "ext3 st st1" and j: "built3 st (inorder ta @ (s, e) # inorder trl) j st1"
          from j have j1: "stores3 st1 j (inorder ta @ (s, e) # inorder trl)" and b1: "d3_blits st1 = d3_blits st"
            by (simp_all add: built3_def)
          from dr(4) e1 have r1: "stores3 st1 ?rr (inorder trr)" by (auto intro: stores3I wf3_ext)
          from post3_balance_built [OF j1 r1, of ?rs ?re] dr(2) b1 tb
          show "post3 st1 (case (j, st1) of (j, st1) \<Rightarrow> d3_balance st1 ?rs ?re j ?rr)
             (built3 st (inorder ta @ (s, e) # inorder tb))"
            by (auto elim!: post3_weaken simp: built3_def)
        qed
        with R lT rT show ?thesis
          by (subst d3_join.simps) (simp add: Let_def)
      next
        case M
        from post3_create_built [OF stores3I [OF l refl] stores3I [OF r refl], of s e]
        have "post3 st (d3_create st s e l r) (built3 st (inorder ta @ (s, e) # inorder tb))" .
        with M lT rT show ?thesis
          by (subst d3_join.simps) (simp add: Let_def)
      qed
    qed
  qed
qed

lemma post3_join_built:
  assumes "stores3 st l xs" "stores3 st r ys"
  shows "post3 st (d3_join st s e l r) (built3 st (xs @ (s, e) # ys))"
  using assms post3_join [of st l _ r _ s e] by (auto simp: stores3_def)

lemma high_of_append_eq:
  "\<forall>iv\<in>set xs. fst iv \<le> hi + 1 \<and> snd iv \<le> high_of hi ys \<Longrightarrow> high_of hi (xs @ ys) = high_of hi ys"
  by (induction xs) auto

lemma dropWhile_none: "\<forall>iv\<in>set ys. \<not> Q iv \<Longrightarrow> dropWhile Q ys = ys"
  by (cases ys) auto

lemma post3_ok_ext: "ext3 st st' \<Longrightarrow> Q v st' \<Longrightarrow> post3 st (ok (v, st')) Q"
  by (auto simp: post3_def ok_def)

lemma post3_blit [simp]: "post3 (d3_blit st a b) m Q = post3 st m Q"
  by (simp add: post3_def)

lemma iso_list_NodeD:
  assumes "iso_list (xs @ (s, e) # ys)"
  shows "iso_list xs" "iso_list ys" "s \<le> e" "\<forall>iv\<in>set xs. snd iv + 1 < s" "\<forall>iv\<in>set ys. e + 1 < fst iv"
    "\<forall>iv\<in>set xs. fst iv \<le> snd iv" "\<forall>iv\<in>set ys. fst iv \<le> snd iv"
proof -
  from assms show "iso_list xs" "iso_list ys" "s \<le> e" "\<forall>iv\<in>set xs. snd iv + 1 < s"
    "\<forall>iv\<in>set ys. e + 1 < fst iv"
    by (auto simp: iso_list_append iso_list_Cons)
  then show "\<forall>iv\<in>set xs. fst iv \<le> snd iv" "\<forall>iv\<in>set ys. fst iv \<le> snd iv"
    by (auto simp: iso_list_def)
qed

lemma post3_find_del_left:
  assumes "wf3 st tree t" "iso_list (inorder t)"
  shows "post3 st (d3_find_del_left st tree start dbe)
     (\<lambda>v st'. stores3 st' (snd v) (takeWhile (\<lambda>iv. snd iv + 1 < start) (inorder t)) \<and>
        fst v = low_of start (inorder t))"
  using assms
proof (induction t arbitrary: st tree dbe)
  case Leaf
  then show ?case
    by (subst d3_find_del_left.simps) (auto intro!: post3_ok_ext simp: d3_blit_def ext3_def)
next
  case (Node ta v0 tb)
  note d = wf3_NodeD [OF Node.prems(1)]
  let ?s = "n3_start (d3_nodes st tree)" and ?e = "n3_end (d3_nodes st tree)"
  let ?l = "n3_left (d3_nodes st tree)" and ?r = "n3_right (d3_nodes st tree)"
  let ?P = "\<lambda>iv. snd iv + 1 < start"
  from Node.prems(2) d(2) have iso: "iso_list (inorder ta @ (?s, ?e) # inorder tb)" by simp
  note i = iso_list_NodeD [OF iso]
  note inord = d(2)
  from Node.prems(1) have len: "d3_len st \<le> N3" by (auto dest: wf3_len)
  consider (R) "start > ?e + 1" | (L) "\<not> start > ?e + 1" "start < ?s"
    | (M) "\<not> start > ?e + 1" "\<not> start < ?s"
    by blast
  then show ?case
  proof cases
    case R
    have allP: "\<forall>iv\<in>set (inorder ta @ [(?s, ?e)]). snd iv + 1 < start"
      using i(3,4) R by auto
    have tw: "takeWhile ?P ((inorder ta @ v0 # inorder tb)) = inorder ta @ (?s, ?e) # takeWhile ?P (inorder tb)"
      using allP takeWhile_append2 [of "inorder ta @ [(?s, ?e)]" ?P "inorder tb"] by (simp add: inord)
    have lw: "low_of start ((inorder ta @ v0 # inorder tb)) = low_of start (inorder tb)"
      using low_of_append_below [OF allP, of "inorder tb"] by (simp add: inord)
    have "post3 st (bindr (d3_find_del_left st ?r start dbe) (\<lambda>((news, newr), st1).
          bindr (d3_join st1 ?s ?e ?l newr) (\<lambda>(j, st2). ok ((news, j), st2))))
       (\<lambda>v st'. stores3 st' (snd v) (takeWhile ?P (inorder (Node ta v0 tb))) \<and>
          fst v = low_of start (inorder (Node ta v0 tb)))"
    proof (rule post3_bind [OF Node.IH(2) [OF d(4) i(2)]], goal_cases)
      case (1 v st1)
      note e1 = 1(1) and v = 1(2)
      from d(3) e1 have l1: "stores3 st1 ?l (inorder ta)" by (auto intro: stores3I wf3_ext)
      from v have r1: "stores3 st1 (snd v) (takeWhile ?P (inorder tb))" by simp
      show ?case
        unfolding prod.case split_beta fst_conv snd_conv
      proof (rule post3_bind [OF post3_join_built [OF l1 r1]], goal_cases)
        case (1 j st2)
        then show ?case
          using v by (auto intro!: post3_ok_ext simp: built3_def tw lw ext3_def)
      qed
    qed
    with R d(1) show ?thesis
      by (subst d3_find_del_left.simps) (simp add: Let_def)
  next
    case L
    have nP: "\<not> ?P (?s, ?e)" using L by simp
    have tw: "takeWhile ?P ((inorder ta @ v0 # inorder tb)) = takeWhile ?P (inorder ta)"
      using takeWhile_tail [of ?P "(?s, ?e)" "inorder ta" "inorder tb"] nP by (simp add: inord)
    have lw: "low_of start ((inorder ta @ v0 # inorder tb)) = low_of start (inorder ta)"
      using low_of_append_stop [of "(?s, ?e)" start "inorder ta" "inorder tb"] L by (simp add: inord)
    from Node.IH(1) [OF d(3) i(1), of dbe] L d(1) show ?thesis
      by (subst d3_find_del_left.simps) (simp add: Let_def tw lw)
  next
    case M
    have allP: "\<forall>iv\<in>set (inorder ta). snd iv + 1 < start"
      using i(4) M by auto
    have tw: "takeWhile ?P ((inorder ta @ v0 # inorder tb)) = inorder ta"
      using allP takeWhile_append2 [of "inorder ta" ?P "(?s, ?e) # inorder tb"] M by (simp add: inord)
    have lw: "low_of start ((inorder ta @ v0 # inorder tb)) = ?s"
      using low_of_append_below [OF allP, of "(?s, ?e) # inorder tb"] M by (simp add: inord)
    have "post3 st (ok ((?s, ?l), d3_blit st (i16 (?e + 1)) dbe))
       (\<lambda>v st'. stores3 st' (snd v) (takeWhile ?P (inorder (Node ta v0 tb))) \<and>
          fst v = low_of start (inorder (Node ta v0 tb)))"
      using d(3) len by (auto intro!: post3_ok_ext stores3I simp: tw lw)
    with M d(1) show ?thesis
      by (subst d3_find_del_left.simps) (simp add: Let_def)
  qed
qed

lemma post3_find_del_right:
  assumes "wf3 st tree t" "iso_list (inorder t)"
  shows "post3 st (d3_find_del_right st tree en dbs)
     (\<lambda>v st'. stores3 st' (snd v) (dropWhile (\<lambda>iv. fst iv \<le> en + 1) (inorder t)) \<and>
        fst v = high_of en (inorder t))"
  using assms
proof (induction t arbitrary: st tree dbs)
  case Leaf
  then show ?case
    by (subst d3_find_del_right.simps) (auto intro!: post3_ok_ext simp: d3_blit_def ext3_def)
next
  case (Node ta v0 tb)
  note d = wf3_NodeD [OF Node.prems(1)]
  let ?s = "n3_start (d3_nodes st tree)" and ?e = "n3_end (d3_nodes st tree)"
  let ?l = "n3_left (d3_nodes st tree)" and ?r = "n3_right (d3_nodes st tree)"
  let ?Q = "\<lambda>iv. fst iv \<le> en + 1"
  from Node.prems(2) d(2) have iso: "iso_list (inorder ta @ (?s, ?e) # inorder tb)" by simp
  note i = iso_list_NodeD [OF iso]
  note inord = d(2)
  from Node.prems(1) have len: "d3_len st \<le> N3" by (auto dest: wf3_len)
  consider (L) "en < ?s - 1" | (R) "\<not> en < ?s - 1" "en > ?e"
    | (M) "\<not> en < ?s - 1" "\<not> en > ?e"
    by blast
  then show ?case
  proof cases
    case L
    have nQ: "\<not> ?Q (?s, ?e)" using L by simp
    have dw: "dropWhile ?Q ((inorder ta @ v0 # inorder tb)) = dropWhile ?Q (inorder ta) @ (?s, ?e) # inorder tb"
      using dropWhile_append3 [of ?Q "(?s, ?e)" "inorder ta" "inorder tb"] nQ by (simp add: inord)
    have hw: "high_of en ((inorder ta @ v0 # inorder tb)) = high_of en (inorder ta)"
      using high_of_append_stop [of "(?s, ?e)" en "inorder ta" "inorder tb"] nQ by (simp add: inord)
    have "post3 st (bindr (d3_find_del_right st ?l en dbs) (\<lambda>((newe, newl), st1).
          bindr (d3_join st1 ?s ?e newl ?r) (\<lambda>(j, st2). ok ((newe, j), st2))))
       (\<lambda>v st'. stores3 st' (snd v) (dropWhile ?Q (inorder (Node ta v0 tb))) \<and>
          fst v = high_of en (inorder (Node ta v0 tb)))"
    proof (rule post3_bind [OF Node.IH(1) [OF d(3) i(1)]], goal_cases)
      case (1 v st1)
      note e1 = 1(1) and v = 1(2)
      from d(4) e1 have r1: "stores3 st1 ?r (inorder tb)" by (auto intro: stores3I wf3_ext)
      from v have l1: "stores3 st1 (snd v) (dropWhile ?Q (inorder ta))" by simp
      show ?case
        unfolding prod.case split_beta fst_conv snd_conv
      proof (rule post3_bind [OF post3_join_built [OF l1 r1]], goal_cases)
        case (1 j st2)
        then show ?case
          using v by (auto intro!: post3_ok_ext simp: built3_def dw hw ext3_def)
      qed
    qed
    with L d(1) show ?thesis
      by (subst d3_find_del_right.simps) (simp add: Let_def)
  next
    case R
    have allQ: "\<forall>iv\<in>set (inorder ta @ [(?s, ?e)]). fst iv \<le> en + 1 \<and> snd iv \<le> en"
      using i(3,4,6) R by fastforce
    have dw: "dropWhile ?Q ((inorder ta @ v0 # inorder tb)) = dropWhile ?Q (inorder tb)"
      using allQ dropWhile_append2 [of "inorder ta @ [(?s, ?e)]" ?Q "inorder tb"] by (simp add: inord)
    have hw: "high_of en ((inorder ta @ v0 # inorder tb)) = high_of en (inorder tb)"
      using high_of_append_above [OF allQ, of "inorder tb"] by (simp add: inord)
    from Node.IH(2) [OF d(4) i(2), of dbs] R d(1) show ?thesis
      by (subst d3_find_del_right.simps) (simp add: Let_def dw hw)
  next
    case M
    have far: "\<forall>iv\<in>set (inorder tb). en + 1 < fst iv" using i(5) M by auto
    have h1: "high_of en ((?s, ?e) # inorder tb) = ?e"
      using high_of_far [OF far] M by simp
    have allQ: "\<forall>iv\<in>set (inorder ta). fst iv \<le> en + 1 \<and> snd iv \<le> high_of en ((?s, ?e) # inorder tb)"
      unfolding h1 using i(3,4,6) M by fastforce
    have dn: "dropWhile ?Q (inorder tb) = inorder tb"
      by (rule dropWhile_none) (use far in auto)
    have dw: "dropWhile ?Q ((inorder ta @ v0 # inorder tb)) = inorder tb"
      using allQ dropWhile_append2 [of "inorder ta" ?Q "(?s, ?e) # inorder tb"] M dn
      by (simp add: inord)
    have hw: "high_of en ((inorder ta @ v0 # inorder tb)) = ?e"
      using high_of_append_eq [OF allQ] h1 by (simp add: inord)
    have "post3 st (ok ((?e, ?r), d3_blit st dbs (i16 (?s - 1))))
       (\<lambda>v st'. stores3 st' (snd v) (dropWhile ?Q (inorder (Node ta v0 tb))) \<and>
          fst v = high_of en (inorder (Node ta v0 tb)))"
      using d(4) len by (auto intro!: post3_ok_ext stores3I simp: dw hw)
    with M d(1) show ?thesis
      by (subst d3_find_del_right.simps) (simp add: Let_def)
  qed
qed

lemma inserted_left:
  assumes "iso_list (xs @ (s, e) # ys)" "inserted xs start en zs" "en + 1 < s"
  shows "inserted (xs @ (s, e) # ys) start en (zs @ (s, e) # ys)"
proof -
  from assms(2) have z: "iso_list zs" "cover zs = cover xs \<union> {start..en}"
    "{start..en} \<subseteq> cover xs \<longrightarrow> zs = xs"
    by (auto simp: inserted_def)
  have "iso_list (zs @ (s, e) # ys)"
    by (rule descend_left_iso [OF assms(1) z(1,2) assms(3)])
  moreover have "cover (zs @ (s, e) # ys) = cover (xs @ (s, e) # ys) \<union> {start..en}"
    using z(2) by auto
  moreover have "zs @ (s, e) # ys = xs @ (s, e) # ys" if "{start..en} \<subseteq> cover (xs @ (s, e) # ys)"
    using covered_left [OF assms(1) that assms(3)] z(3) by simp
  ultimately show ?thesis by (simp add: inserted_def)
qed

lemma inserted_right:
  assumes "iso_list (xs @ (s, e) # ys)" "inserted ys start en zs" "e + 1 < start"
  shows "inserted (xs @ (s, e) # ys) start en (xs @ (s, e) # zs)"
proof -
  from assms(2) have z: "iso_list zs" "cover zs = cover ys \<union> {start..en}"
    "{start..en} \<subseteq> cover ys \<longrightarrow> zs = ys"
    by (auto simp: inserted_def)
  have "iso_list (xs @ (s, e) # zs)"
    by (rule descend_right_iso [OF assms(1) z(1,2) assms(3)])
  moreover have "cover (xs @ (s, e) # zs) = cover (xs @ (s, e) # ys) \<union> {start..en}"
    using z(2) by auto
  moreover have "xs @ (s, e) # zs = xs @ (s, e) # ys" if "{start..en} \<subseteq> cover (xs @ (s, e) # ys)"
    using covered_right [OF assms(1) that assms(3)] z(3) by simp
  ultimately show ?thesis by (simp add: inserted_def)
qed

lemma inserted_meet:
  assumes iso: "iso_list (xs @ (s, e) # ys)" and se: "start \<le> en"
    and meet: "\<not> en + 1 < s" "\<not> e + 1 < start"
    and lo: "lo = min s start" and hi: "hi = max e en"
  shows "inserted (xs @ (s, e) # ys) start en
     (takeWhile (\<lambda>iv. snd iv + 1 < lo) xs @ (low_of lo xs, high_of hi ys) #
        dropWhile (\<lambda>iv. fst iv \<le> hi + 1) ys)"
proof -
  note m = merge_iso_cover [OF iso se meet lo hi]
  note i = iso_list_NodeD [OF iso]
  have "takeWhile (\<lambda>iv. snd iv + 1 < lo) xs @ (low_of lo xs, high_of hi ys) #
        dropWhile (\<lambda>iv. fst iv \<le> hi + 1) ys = xs @ (s, e) # ys"
    if c: "{start..en} \<subseteq> cover (xs @ (s, e) # ys)"
  proof -
    from covered_meet [OF iso c se meet] have "s \<le> start" "en \<le> e" by auto
    with lo hi have l: "lo = s" and h: "hi = e" by auto
    have 1: "takeWhile (\<lambda>iv. snd iv + 1 < lo) xs = xs"
      by (rule takeWhile_all) (use i(4) l in auto)
    have 2: "low_of lo xs = s" using low_of_all [of xs lo] i(4) l by auto
    have 3: "high_of hi ys = e" using high_of_far [of ys hi] i(5) h by auto
    have 4: "dropWhile (\<lambda>iv. fst iv \<le> hi + 1) ys = ys"
      by (rule dropWhile_none) (use i(5) h in auto)
    from 1 2 3 4 show ?thesis by simp
  qed
  with m show ?thesis by (simp add: inserted_def)
qed

lemma inserted_empty: "start \<le> en \<Longrightarrow> inserted [] start en [(start, en)]"
  by (auto simp: inserted_def iso_list_def)

lemma covered_meet_bounds:
  assumes "iso_list (xs @ (s, e) # ys)" "{start..en} \<subseteq> cover (xs @ (s, e) # ys)" "start \<le> en"
    "\<not> en + 1 < s" "\<not> e + 1 < start"
  shows "s \<le> start" "en \<le> e"
  using covered_meet [OF assms] by auto

lemma post3_insert_range:
  assumes "wf3 st tree t" "iso_list (inorder t)" "start \<le> en"
  shows "post3 st (d3_insert_range st tree start en)
     (\<lambda>h st'. \<exists>ys. stores3 st' h ys \<and> inserted (inorder t) start en ys \<and>
        ({start..en} \<subseteq> cover (inorder t) \<longrightarrow> d3_blits st' = d3_blits st))"
  using assms(1,2)
proof (induction t arbitrary: st tree)
  case Leaf
  then have len: "0 \<le> d3_len (d3_blit st start en)" "d3_len (d3_blit st start en) \<le> N3"
    by (simp_all add: d3_blit_def)
  from post3_leaf_built [OF len, of start en]
  have "post3 st (d3_new_node (d3_blit st start en) start en 1 T T)
     (built3 (d3_blit st start en) [(start, en)])"
    by simp
  then have "post3 st (d3_new_node (d3_blit st start en) start en 1 T T)
     (\<lambda>h st'. \<exists>ys. stores3 st' h ys \<and> inserted (inorder Leaf) start en ys \<and>
        ({start..en} \<subseteq> cover (inorder Leaf) \<longrightarrow> d3_blits st' = d3_blits st))"
  proof (rule post3_weaken, goal_cases)
    case (1 h st')
    with assms(3) show ?case
      by (auto simp: built3_def intro!: exI [of _ "[(start, en)]"] inserted_empty)
  qed
  with Leaf show ?case
    by (subst d3_insert_range.simps) simp
next
  case (Node ta v0 tb)
  note d = wf3_NodeD [OF Node.prems(1)]
  let ?s = "n3_start (d3_nodes st tree)" and ?e = "n3_end (d3_nodes st tree)"
  let ?l = "n3_left (d3_nodes st tree)" and ?r = "n3_right (d3_nodes st tree)"
  from Node.prems(2) d(2) have iso: "iso_list (inorder ta @ (?s, ?e) # inorder tb)" by simp
  note i = iso_list_NodeD [OF iso]
  note inord = d(2)
  from Node.prems(1) have len: "d3_len st \<le> N3" by (auto dest: wf3_len)
  let ?Q = "\<lambda>h st'. \<exists>ys. stores3 st' h ys \<and> inserted (inorder (Node ta v0 tb)) start en ys \<and>
        ({start..en} \<subseteq> cover (inorder (Node ta v0 tb)) \<longrightarrow> d3_blits st' = d3_blits st)"
  consider (L) "en < ?s - 1" | (R) "\<not> en < ?s - 1" "start > ?e + 1"
    | (M) "\<not> en < ?s - 1" "\<not> start > ?e + 1"
    by blast
  then show ?case
  proof cases
    case L
    then have gap: "en + 1 < ?s" by simp
    have "post3 st (bindr (d3_insert_range st ?l start en) (\<lambda>(new, st1). d3_join st1 ?s ?e new ?r)) ?Q"
    proof (rule post3_bind [OF Node.IH(1) [OF d(3) i(1)]], goal_cases)
      case (1 new st1)
      then obtain zs where zs: "stores3 st1 new zs" "inserted (inorder ta) start en zs"
        "{start..en} \<subseteq> cover (inorder ta) \<longrightarrow> d3_blits st1 = d3_blits st"
        by blast
      from d(4) 1(1) have r1: "stores3 st1 ?r (inorder tb)" by (auto intro: stores3I wf3_ext)
      note ins = inserted_left [OF iso zs(2) gap]
      have cov: "d3_blits st1 = d3_blits st" if "{start..en} \<subseteq> cover (inorder ta @ (?s, ?e) # inorder tb)"
        using covered_left [OF iso that gap] zs(3) by simp
      show ?case
        unfolding prod.case
        by (rule post3_weaken [OF post3_join_built [OF zs(1) r1]])
           (use ins cov in \<open>auto simp: built3_def inord intro!: exI [of _ "zs @ (?s, ?e) # inorder tb"]\<close>)
    qed
    with L d(1) show ?thesis
      by (subst d3_insert_range.simps) (simp add: Let_def)
  next
    case R
    then have gap: "?e + 1 < start" by simp
    have "post3 st (bindr (d3_insert_range st ?r start en) (\<lambda>(new, st1). d3_join st1 ?s ?e ?l new)) ?Q"
    proof (rule post3_bind [OF Node.IH(2) [OF d(4) i(2)]], goal_cases)
      case (1 new st1)
      then obtain zs where zs: "stores3 st1 new zs" "inserted (inorder tb) start en zs"
        "{start..en} \<subseteq> cover (inorder tb) \<longrightarrow> d3_blits st1 = d3_blits st"
        by blast
      from d(3) 1(1) have l1: "stores3 st1 ?l (inorder ta)" by (auto intro: stores3I wf3_ext)
      note ins = inserted_right [OF iso zs(2) gap]
      have cov: "d3_blits st1 = d3_blits st" if "{start..en} \<subseteq> cover (inorder ta @ (?s, ?e) # inorder tb)"
        using covered_right [OF iso that gap] zs(3) by simp
      show ?case
        unfolding prod.case
        by (rule post3_weaken [OF post3_join_built [OF l1 zs(1)]])
           (use ins cov in \<open>auto simp: built3_def inord intro!: exI [of _ "inorder ta @ (?s, ?e) # zs"]\<close>)
    qed
    with R d(1) show ?thesis
      by (subst d3_insert_range.simps) (simp add: Let_def)
  next
    case M
    then have meet: "\<not> en + 1 < ?s" "\<not> ?e + 1 < start" by auto
    define lo where "lo = min ?s start"
    define hi where "hi = max ?e en"
    let ?P = "\<lambda>iv. snd iv + 1 < lo" and ?R = "\<lambda>iv. fst iv \<le> hi + 1"
    let ?m1 = "if start \<ge> ?s then ok ((?s, ?l), st) else d3_find_del_left st ?l start (i16 (?s - 1))"
    let ?m2 = "\<lambda>st1. if en \<le> ?e then ok ((?e, ?r), st1) else d3_find_del_right st1 ?r en (i16 (?e + 1))"
    note ins = inserted_meet [OF iso assms(3) meet lo_def hi_def]
    have m1: "post3 st ?m1 (\<lambda>v st1. stores3 st1 (snd v) (takeWhile ?P (inorder ta)) \<and>
        fst v = low_of lo (inorder ta) \<and> (?s \<le> start \<longrightarrow> d3_blits st1 = d3_blits st))"
    proof (cases "start \<ge> ?s")
      case True
      then have l: "lo = ?s" by (simp add: lo_def)
      have 1: "takeWhile ?P (inorder ta) = inorder ta"
        by (rule takeWhile_all) (use i(4) l in auto)
      have 2: "low_of lo (inorder ta) = ?s" using low_of_all [of "inorder ta" lo] i(4) l by auto
      from True d(3) len show ?thesis
        by (auto intro!: post3_ok_ext stores3I simp: 1 2)
    next
      case False
      then have l: "lo = start" by (simp add: lo_def)
      from False post3_find_del_left [OF d(3) i(1), of start "i16 (?s - 1)"] show ?thesis
        by (auto simp: l elim!: post3_weaken)
    qed
    have m2: "post3 st1 (?m2 st1) (\<lambda>v st2. stores3 st2 (snd v) (dropWhile ?R (inorder tb)) \<and>
        fst v = high_of hi (inorder tb) \<and> (en \<le> ?e \<longrightarrow> d3_blits st2 = d3_blits st1))"
      if e1: "ext3 st st1" for st1
    proof (cases "en \<le> ?e")
      case True
      then have h: "hi = ?e" by (simp add: hi_def)
      have 3: "high_of hi (inorder tb) = ?e" using high_of_far [of "inorder tb" hi] i(5) h by auto
      have 4: "dropWhile ?R (inorder tb) = inorder tb"
        by (rule dropWhile_none) (use i(5) h in auto)
      from d(4) e1 have "wf3 st1 ?r tb" by (rule wf3_ext)
      with True e1 show ?thesis
        by (auto intro!: post3_ok_ext stores3I simp: 3 4 ext3_def)
    next
      case False
      then have h: "hi = en" by (simp add: hi_def)
      from d(4) e1 have "wf3 st1 ?r tb" by (rule wf3_ext)
      from False post3_find_del_right [OF this i(2), of en "i16 (?e + 1)"] show ?thesis
        by (auto simp: h elim!: post3_weaken)
    qed
    have "post3 st (bindr ?m1 (\<lambda>((news, newl), st1).
          bindr (?m2 st1) (\<lambda>((newe, newr), st2).
          d3_join st2 news newe newl newr))) ?Q"
    proof (rule post3_bind [OF m1], goal_cases)
      case (1 v st1)
      note e1 = 1(1) and v = 1(2)
      show ?case
        unfolding prod.case split_beta fst_conv snd_conv
      proof (rule post3_bind [OF m2 [OF e1]], goal_cases)
        case (1 w st2)
        note e2 = 1(1) and w = 1(2)
        from v e2 have l2: "stores3 st2 (snd v) (takeWhile ?P (inorder ta))"
          by (auto intro: stores3_ext)
        from w have r2: "stores3 st2 (snd w) (dropWhile ?R (inorder tb))" by simp
        have cov: "d3_blits st2 = d3_blits st" if "{start..en} \<subseteq> cover (inorder ta @ (?s, ?e) # inorder tb)"
          using covered_meet_bounds [OF iso that assms(3) meet] v w by simp
        show ?case
          unfolding fst_conv snd_conv
          by (rule post3_weaken [OF post3_join_built [OF l2 r2]])
             (use ins cov v w in \<open>auto simp: built3_def inord
                intro!: exI [of _ "takeWhile ?P (inorder ta) @ (low_of lo (inorder ta), high_of hi (inorder tb)) # dropWhile ?R (inorder tb)"]\<close>)
      qed
    qed
    with M d(1) show ?thesis
      by (subst d3_insert_range.simps) (simp add: Let_def)
  qed
qed


lemma d3_find_del_left_grows_aux:
  assumes "d3_find_del_left st t a b = Some y"
  shows "\<forall>v st'. y = Inr (v, st') \<longrightarrow> length (d3_blits st) < length (d3_blits st')"
proof (rule d3_find_del_left.raw_induct [where P = "\<lambda>st t a b y. \<forall>v st'. y = Inr (v, st') \<longrightarrow> length (d3_blits st) < length (d3_blits st')", OF _ assms], goal_cases)
  case (1 f st tree start en y)
  from 1(2) show ?case
    by (auto simp: bindr_eq_Inr ok_def d3_blit_def Let_def split: if_splits dest!: 1(1) d3_join_blits)
qed

lemma d3_find_del_left_grows:
  "d3_find_del_left st t a b = Some (Inr (v, st')) \<Longrightarrow> length (d3_blits st) < length (d3_blits st')"
  using d3_find_del_left_grows_aux by blast

lemma d3_find_del_right_grows_aux:
  assumes "d3_find_del_right st t a b = Some y"
  shows "\<forall>v st'. y = Inr (v, st') \<longrightarrow> length (d3_blits st) < length (d3_blits st')"
proof (rule d3_find_del_right.raw_induct [where P = "\<lambda>st t a b y. \<forall>v st'. y = Inr (v, st') \<longrightarrow> length (d3_blits st) < length (d3_blits st')", OF _ assms], goal_cases)
  case (1 f st tree start en y)
  from 1(2) show ?case
    by (auto simp: bindr_eq_Inr ok_def d3_blit_def Let_def split: if_splits dest!: 1(1) d3_join_blits)
qed

lemma d3_find_del_right_grows:
  "d3_find_del_right st t a b = Some (Inr (v, st')) \<Longrightarrow> length (d3_blits st) < length (d3_blits st')"
  using d3_find_del_right_grows_aux by blast

text \<open>
  A returning \<open>insert_range\<close> of diet3.c has made a \<open>blit\<close> call, unless the descent
  stopped at a node whose interval contains the range.
\<close>

lemma d3_insert_range_grows:
  assumes "wf3 st tree t" "d3_insert_range st tree start en = Some (Inr (h, st'))"
  shows "length (d3_blits st) < length (d3_blits st') \<or>
     (\<exists>iv\<in>set (inorder t). fst iv \<le> start \<and> en \<le> snd iv)"
  using assms
proof (induction t arbitrary: tree h st')
  case Leaf
  then have "tree = T" by simp
  with Leaf(2) show ?case
    by (subst (asm) d3_insert_range.simps) (auto simp: d3_blit_def dest!: d3_new_node_blits)
next
  case (Node ta v0 tb)
  note wf = wf3_NodeD [OF Node.prems(1)]
  let ?s = "n3_start (d3_nodes st tree)" and ?e = "n3_end (d3_nodes st tree)"
  let ?l = "n3_left (d3_nodes st tree)" and ?r = "n3_right (d3_nodes st tree)"
  have nT: "tree \<noteq> T" using Node.prems(1) by (rule wf3_Node_T)
  consider (L) "en < ?s - 1" | (R) "\<not> en < ?s - 1" "start > ?e + 1"
    | (C) "\<not> en < ?s - 1" "\<not> start > ?e + 1" "?s \<le> start" "en \<le> ?e"
    | (FL) "\<not> en < ?s - 1" "\<not> start > ?e + 1" "\<not> ?s \<le> start"
    | (FR) "\<not> en < ?s - 1" "\<not> start > ?e + 1" "?s \<le> start" "\<not> en \<le> ?e"
    by linarith
  then show ?case
  proof cases
    case L
    with nT Node.prems(2) obtain new st1 where
      r: "d3_insert_range st ?l start en = Some (Inr (new, st1))" and
      j: "d3_join st1 ?s ?e new ?r = Some (Inr (h, st'))"
      by (subst (asm) d3_insert_range.simps) (auto simp: Let_def bindr_eq_Inr)
    from Node.IH(1) [OF _ r] wf d3_join_blits [OF j] show ?thesis by auto
  next
    case R
    with nT Node.prems(2) obtain new st1 where
      r: "d3_insert_range st ?r start en = Some (Inr (new, st1))" and
      j: "d3_join st1 ?s ?e ?l new = Some (Inr (h, st'))"
      by (subst (asm) d3_insert_range.simps) (auto simp: Let_def bindr_eq_Inr)
    from Node.IH(2) [OF _ r] wf d3_join_blits [OF j] show ?thesis by auto
  next
    case C
    with wf show ?thesis by auto
  next
    case FL
    with nT Node.prems(2) obtain news newl st1 newe newr st2 where
      a: "d3_find_del_left st ?l start (i16 (?s - 1)) = Some (Inr ((news, newl), st1))" and
      b: "(if en \<le> ?e then ok ((?e, ?r), st1) else d3_find_del_right st1 ?r en (i16 (?e + 1))) = Some (Inr ((newe, newr), st2))" and
      j: "d3_join st2 news newe newl newr = Some (Inr (h, st'))"
      by (subst (asm) d3_insert_range.simps) (auto simp: Let_def bindr_eq_Inr)
    from b have "length (d3_blits st1) \<le> length (d3_blits st2)"
      by (auto simp: ok_def split: if_splits dest!: d3_find_del_right_grows)
    with d3_find_del_left_grows [OF a] d3_join_blits [OF j] show ?thesis by simp
  next
    case FR
    with nT Node.prems(2) obtain newe newr st2 where
      b: "d3_find_del_right st ?r en (i16 (?e + 1)) = Some (Inr ((newe, newr), st2))" and
      j: "d3_join st2 ?s newe ?l newr = Some (Inr (h, st'))"
      by (subst (asm) d3_insert_range.simps) (auto simp: Let_def bindr_eq_Inr ok_def)
    with d3_find_del_right_grows [OF b] d3_join_blits [OF j] show ?thesis by simp
  qed
qed


lemma d3_find_del_left_prefix_aux:
  assumes "d3_find_del_left st t a b = Some y"
  shows "\<forall>v st'. y = Inr (v, st') \<longrightarrow> (\<exists>bs. d3_blits st' = d3_blits st @ bs)"
proof (rule d3_find_del_left.raw_induct [where P = "\<lambda>st t a b y. \<forall>v st'. y = Inr (v, st') \<longrightarrow> (\<exists>bs. d3_blits st' = d3_blits st @ bs)", OF _ assms], goal_cases)
  case (1 f st tree start en y)
  from 1(2) show ?case
    by (auto simp: bindr_eq_Inr ok_def d3_blit_def Let_def split: if_splits dest!: 1(1) d3_join_blits)
qed

lemma d3_find_del_right_prefix_aux:
  assumes "d3_find_del_right st t a b = Some y"
  shows "\<forall>v st'. y = Inr (v, st') \<longrightarrow> (\<exists>bs. d3_blits st' = d3_blits st @ bs)"
proof (rule d3_find_del_right.raw_induct [where P = "\<lambda>st t a b y. \<forall>v st'. y = Inr (v, st') \<longrightarrow> (\<exists>bs. d3_blits st' = d3_blits st @ bs)", OF _ assms], goal_cases)
  case (1 f st tree start en y)
  from 1(2) show ?case
    by (auto simp: bindr_eq_Inr ok_def d3_blit_def Let_def split: if_splits dest!: 1(1) d3_join_blits)
qed

lemma d3_find_del_prefix:
  "d3_find_del_left st t a b = Some (Inr (v, st')) \<Longrightarrow> \<exists>bs. d3_blits st' = d3_blits st @ bs"
  "d3_find_del_right st t a b = Some (Inr (v, st')) \<Longrightarrow> \<exists>bs. d3_blits st' = d3_blits st @ bs"
  using d3_find_del_left_prefix_aux d3_find_del_right_prefix_aux by blast+

lemma d3_insert_range_prefix_aux:
  assumes "d3_insert_range st t a b = Some y"
  shows "\<forall>v st'. y = Inr (v, st') \<longrightarrow> (\<exists>bs. d3_blits st' = d3_blits st @ bs)"
proof (rule d3_insert_range.raw_induct [where P = "\<lambda>st t a b y. \<forall>v st'. y = Inr (v, st') \<longrightarrow> (\<exists>bs. d3_blits st' = d3_blits st @ bs)", OF _ assms], goal_cases)
  case (1 f st tree start en y)
  show ?case
  proof (intro allI impI)
    fix v st' assume y: "y = Inr (v, st')"
    show "\<exists>bs. d3_blits st' = d3_blits st @ bs"
    proof (cases "tree = T")
      case True
      with 1(2) y show ?thesis by (auto simp: d3_blit_def dest!: d3_new_node_blits)
    next
      case nT: False
      let ?s = "n3_start (d3_nodes st tree)" and ?e = "n3_end (d3_nodes st tree)"
      let ?l = "n3_left (d3_nodes st tree)" and ?r = "n3_right (d3_nodes st tree)"
      consider (L) "en < ?s - 1" | (R) "\<not> en < ?s - 1" "start > ?e + 1"
        | (M) "\<not> en < ?s - 1" "\<not> start > ?e + 1" by linarith
      then show ?thesis
      proof cases
        case L
        with nT 1(2) y show ?thesis
          by (auto simp: bindr_eq_Inr Let_def dest!: 1(1) d3_join_blits)
      next
        case R
        with nT 1(2) y show ?thesis
          by (auto simp: bindr_eq_Inr Let_def dest!: 1(1) d3_join_blits)
      next
        case M
        with nT 1(2) y obtain news newl st1 newe newr st2 where
          a: "(if ?s \<le> start then ok ((?s, ?l), st) else d3_find_del_left st ?l start (i16 (?s - 1))) = Some (Inr ((news, newl), st1))" and
          b: "(if en \<le> ?e then ok ((?e, ?r), st1) else d3_find_del_right st1 ?r en (i16 (?e + 1))) = Some (Inr ((newe, newr), st2))" and
          j: "d3_join st2 news newe newl newr = Some (Inr (v, st'))"
          by (auto simp: Let_def bindr_eq_Inr)
        from a obtain b1 where b1: "d3_blits st1 = d3_blits st @ b1"
          by (auto simp: ok_def split: if_splits dest!: d3_find_del_prefix)
        from b obtain b2 where b2: "d3_blits st2 = d3_blits st1 @ b2"
          by (auto simp: ok_def split: if_splits dest!: d3_find_del_prefix)
        from b1 b2 d3_join_blits [OF j] show ?thesis by simp
      qed
    qed
  qed
qed

lemma d3_insert_range_prefix:
  "d3_insert_range st t a b = Some (Inr (v, st')) \<Longrightarrow> \<exists>bs. d3_blits st' = d3_blits st @ bs"
  using d3_insert_range_prefix_aux by blast

text \<open>The invariant of diet3.c: the root holds a tree whose intervals are isolated.\<close>

lemma wf3_root [simp]: "wf3 (st\<lparr>d3_root := h\<rparr>) x t = wf3 st x t"
  by (simp add: wf3_def)

lemma stores3_root [simp]: "stores3 (st\<lparr>d3_root := h\<rparr>) x xs = stores3 st x xs"
  by (simp add: stores3_def)

lemma d3_insert_step:
  assumes "wf3 st (d3_root st) t" "iso_list (inorder t)" "start \<le> en"
  shows "\<exists>r. d3_insert st start en = Some r \<and>
     (r = Inl AssertionFailed \<or>
      (\<exists>st' ys. r = Inr st' \<and> stores3 st' (d3_root st') ys \<and> inserted (inorder t) start en ys \<and>
         (\<exists>bs. d3_blits st' = d3_blits st @ bs \<and>
            (bs = [] \<longleftrightarrow> (\<exists>iv\<in>set (inorder t). fst iv \<le> start \<and> en \<le> snd iv)))))"
proof -
  from post3_insert_range [OF assms] obtain r where
    r: "d3_insert_range st (d3_root st) start en = Some r" and
    d: "r = Inl AssertionFailed \<or> (\<exists>h st'. r = Inr (h, st') \<and> ext3 st st' \<and>
         (\<exists>ys. stores3 st' h ys \<and> inserted (inorder t) start en ys \<and>
           ({start..en} \<subseteq> cover (inorder t) \<longrightarrow> d3_blits st' = d3_blits st)))"
    unfolding post3_def by blast
  from d show ?thesis
  proof
    assume "r = Inl AssertionFailed"
    with r show ?thesis by (simp add: d3_insert_def bindr_def)
  next
    assume "\<exists>h st'. r = Inr (h, st') \<and> ext3 st st' \<and>
         (\<exists>ys. stores3 st' h ys \<and> inserted (inorder t) start en ys \<and>
           ({start..en} \<subseteq> cover (inorder t) \<longrightarrow> d3_blits st' = d3_blits st))"
    then obtain h st' ys where r': "r = Inr (h, st')" and ys: "stores3 st' h ys"
      "inserted (inorder t) start en ys" and
      c: "{start..en} \<subseteq> cover (inorder t) \<longrightarrow> d3_blits st' = d3_blits st" by blast
    from r r' have i: "d3_insert st start en = Some (Inr (st'\<lparr>d3_root := h\<rparr>))"
      by (simp add: d3_insert_def bindr_def ok_def)
    from r r' have g: "length (d3_blits st) < length (d3_blits st') \<or>
       (\<exists>iv\<in>set (inorder t). fst iv \<le> start \<and> en \<le> snd iv)"
      using d3_insert_range_grows [OF assms(1)] by blast
    from r r' obtain bs where bs: "d3_blits st' = d3_blits st @ bs"
      using d3_insert_range_prefix by blast
    have "bs = [] \<longleftrightarrow> (\<exists>iv\<in>set (inorder t). fst iv \<le> start \<and> en \<le> snd iv)"
    proof
      assume "bs = []"
      with bs g show "\<exists>iv\<in>set (inorder t). fst iv \<le> start \<and> en \<le> snd iv" by simp
    next
      assume "\<exists>iv\<in>set (inorder t). fst iv \<le> start \<and> en \<le> snd iv"
      then have "{start..en} \<subseteq> cover (inorder t)"
        by (force simp: cover_iff)
      with c bs show "bs = []" by simp
    qed
    with i ys bs show ?thesis by auto
  qed
qed


subsection \<open>Preorder listing and isolation\<close>

lemma set_preorder: "set (preorder t) = set (inorder t)"
  by (induction t) auto

lemma cover_preorder: "cover (preorder t) = cover (inorder t)"
  by (simp add: cover_def set_preorder)

lemma sorted_wrt_preorder:
  assumes sym: "\<And>a b. R a b \<Longrightarrow> R b a" and s: "sorted_wrt R (inorder t)"
  shows "sorted_wrt R (preorder t)"
  using s by (induction t) (auto simp: sorted_wrt_append set_preorder intro: sym)

lemma sorted_wrt_pairs:
  assumes sym: "\<And>a b. R a b \<Longrightarrow> R b a" and s: "sorted_wrt R hs" and irr: "\<forall>x\<in>set hs. \<not> R x x"
  shows "distinct hs \<and> (\<forall>x\<in>set hs. \<forall>y\<in>set hs. x \<noteq> y \<longrightarrow> R x y)"
  using s irr by (induction hs) (auto intro: sym)

lemma iso_list_apart:
  assumes "iso_list xs"
  shows "sorted_wrt (\<lambda>a b. \<not> (fst a \<le> snd b + 1 \<and> fst b \<le> snd a + 1)) xs"
proof -
  from assms have "sorted_wrt (\<lambda>x y. snd x + 1 < fst y) xs" by (simp add: iso_list_def)
  then show ?thesis by (rule sorted_wrt_mono_rel [rotated]) auto
qed

subsection \<open>diet3.c: the stored nodes\<close>

lemma d3_gather:
  assumes "wf3 st h t" "h \<noteq> T"
  shows "\<exists>hs. d3_gather_indices st h vs = Some (vs @ hs) \<and> map (d3_interval st) hs = preorder t"
  using assms
proof (induction t arbitrary: h vs)
  case Leaf
  then show ?case by simp
next
  case (Node ta v0 tb)
  note d = wf3_NodeD [OF Node.prems(1)]
  let ?l = "n3_left (d3_nodes st h)" and ?r = "n3_right (d3_nodes st h)"
  have "\<exists>hl. (if ?l \<noteq> T then d3_gather_indices st ?l (vs @ [h]) else Some (vs @ [h])) = Some ((vs @ [h]) @ hl)
      \<and> map (d3_interval st) hl = preorder ta"
  proof (cases "?l = T")
    case True
    with d(3) have "ta = Leaf" by (auto dest: wf3_T)
    with True show ?thesis by simp
  next
    case False
    with Node.IH(1) [OF d(3) False, of "vs @ [h]"] show ?thesis by simp
  qed
  then obtain hl where l: "(if ?l \<noteq> T then d3_gather_indices st ?l (vs @ [h]) else Some (vs @ [h])) = Some ((vs @ [h]) @ hl)"
    and ml: "map (d3_interval st) hl = preorder ta" by blast
  have "\<exists>hr. (if ?r \<noteq> T then d3_gather_indices st ?r ((vs @ [h]) @ hl) else Some ((vs @ [h]) @ hl)) = Some (((vs @ [h]) @ hl) @ hr)
      \<and> map (d3_interval st) hr = preorder tb"
  proof (cases "?r = T")
    case True
    with d(4) have "tb = Leaf" by (auto dest: wf3_T)
    with True show ?thesis by simp
  next
    case False
    with Node.IH(2) [OF d(4) False, of "(vs @ [h]) @ hl"] show ?thesis by simp
  qed
  then obtain hr where r: "(if ?r \<noteq> T then d3_gather_indices st ?r ((vs @ [h]) @ hl) else Some ((vs @ [h]) @ hl)) = Some (((vs @ [h]) @ hl) @ hr)"
    and mr: "map (d3_interval st) hr = preorder tb" by blast
  have "d3_gather_indices st h vs = Some (vs @ (h # hl @ hr))"
    using l r by (subst d3_gather_indices.simps) (auto simp: Let_def split: if_splits)
  moreover have "map (d3_interval st) (h # hl @ hr) = preorder (Node ta v0 tb)"
    using ml mr d(2) by (simp add: d3_interval_def)
  ultimately show ?case by blast
qed

lemma d3_stored_wf:
  assumes "wf3 st (d3_root st) t"
  shows "\<exists>hs. d3_stored st = Some hs \<and> map (d3_interval st) hs = preorder t"
proof (cases "d3_root st = T")
  case True
  with assms have "t = Leaf" by (auto dest: wf3_T)
  with True show ?thesis by (simp add: d3_stored_def)
next
  case False
  from d3_gather [OF assms False, of "[]"] False show ?thesis by (simp add: d3_stored_def)
qed

text \<open>A run of inserts of diet3.c from a state that holds an isolated tree.\<close>

lemma d3_inserts_run:
  assumes "stores3 st (d3_root st) xs" "iso_list xs" "\<forall>p\<in>set ops. fst p \<le> snd p"
  shows "\<exists>r. d3_inserts st ops = Some r \<and>
     (r = Inl AssertionFailed \<or>
      (\<exists>st' ys. r = Inr st' \<and> stores3 st' (d3_root st') ys \<and> iso_list ys \<and>
         cover ys = cover xs \<union> cover ops))"
  using assms
proof (induction ops arbitrary: st xs)
  case Nil
  then show ?case by (auto simp: ok_def)
next
  case (Cons p ops)
  from Cons.prems(1) obtain t where t: "wf3 st (d3_root st) t" "inorder t = xs"
    by (auto simp: stores3_def)
  from Cons.prems(3) have p: "fst p \<le> snd p" by simp
  from d3_insert_step [OF t(1) _ p] Cons.prems(2) t(2)
  obtain r where r: "d3_insert st (fst p) (snd p) = Some r" and
    d: "r = Inl AssertionFailed \<or>
      (\<exists>st' ys. r = Inr st' \<and> stores3 st' (d3_root st') ys \<and> inserted xs (fst p) (snd p) ys)"
    by auto
  from d show ?case
  proof
    assume "r = Inl AssertionFailed"
    with r show ?thesis by (simp add: bindr_def)
  next
    assume "\<exists>st' ys. r = Inr st' \<and> stores3 st' (d3_root st') ys \<and> inserted xs (fst p) (snd p) ys"
    then obtain st1 ys where r1: "r = Inr st1" and s1: "stores3 st1 (d3_root st1) ys"
      and i1: "inserted xs (fst p) (snd p) ys" by blast
    from i1 have iso: "iso_list ys" and c: "cover ys = cover xs \<union> {fst p..snd p}"
      by (auto simp: inserted_def)
    from Cons.IH [OF s1 iso] Cons.prems(3)
    obtain r' where r': "d3_inserts st1 ops = Some r'" and
      d': "r' = Inl AssertionFailed \<or>
        (\<exists>st' zs. r' = Inr st' \<and> stores3 st' (d3_root st') zs \<and> iso_list zs \<and>
           cover zs = cover ys \<union> cover ops)" by auto
    have e: "d3_inserts st (p # ops) = Some r'" using r r1 r' by (simp add: bindr_def)
    from d' c have "r' = Inl AssertionFailed \<or>
        (\<exists>st' zs. r' = Inr st' \<and> stores3 st' (d3_root st') zs \<and> iso_list zs \<and>
           cover zs = cover xs \<union> cover (p # ops))" by auto
    with e show ?thesis by blast
  qed
qed

lemma d3_clear_stores: "stores3 d3_clear (d3_root d3_clear) []"
  by (simp add: d3_clear_def N3_def)

text \<open>What holds after any run of inserts of diet3.c that was not aborted.\<close>

lemma d3_reach:
  assumes "\<forall>p\<in>set ops. fst p \<le> snd p"
  shows "\<exists>r. d3_inserts d3_clear ops = Some r \<and>
     (r = Inl AssertionFailed \<or>
      (\<exists>st t. r = Inr st \<and> wf3 st (d3_root st) t \<and> iso_list (inorder t) \<and>
         cover (inorder t) = cover ops))"
  using d3_inserts_run [OF d3_clear_stores _ assms] by (auto simp: stores3_def)

subsection \<open>diet.c: the arena and its trees\<close>

lemma rep1_frame:
  "rep1 nd h t \<Longrightarrow> (\<And>x. x \<in> set (inorder t) \<Longrightarrow> nd' x = nd x) \<Longrightarrow> rep1 nd' h t"
  by (induction t arbitrary: h) auto

lemma ivs1_frame:
  "(\<And>x. x \<in> set (inorder t) \<Longrightarrow> d1_nodes st' x = d1_nodes st x) \<Longrightarrow> ivs1 st' t = ivs1 st t"
  by (simp add: ivs1_def d1_interval_def)

lemma ivs1_Leaf [simp]: "ivs1 st Leaf = []"
  by (simp add: ivs1_def)

lemma ivs1_Node [simp]: "ivs1 st (Node l x r) = ivs1 st l @ d1_interval st x # ivs1 st r"
  by (simp add: ivs1_def)

lemma ivs1_blit [simp]: "ivs1 (d1_blit st a b) t = ivs1 st t"
  by (simp add: ivs1_def d1_interval_def d1_blit_def)

lemma wf1_blit [simp]: "wf1 (d1_blit st a b) h t = wf1 st h t"
  by (simp add: wf1_def d1_blit_def)

lemma mod1_blit [simp]: "mod1 H st (d1_blit st' a b) = mod1 H st st'" "mod1 H (d1_blit st a b) st' = mod1 H st st'"
  by (simp_all add: mod1_def d1_blit_def)

lemma d1_len_blit [simp]: "d1_len (d1_blit st a b) = d1_len st"
  "d1_nodes (d1_blit st a b) = d1_nodes st"
  by (simp_all add: d1_blit_def)

lemma mod1_refl [simp]: "mod1 H st st"
  by (simp add: mod1_def)

lemma mod1_trans: "mod1 H a b \<Longrightarrow> mod1 H b c \<Longrightarrow> mod1 H a c"
  by (auto simp: mod1_def)

lemma mod1_mono: "mod1 H a b \<Longrightarrow> H \<subseteq> H' \<Longrightarrow> mod1 H' a b"
  by (auto simp: mod1_def)

lemma wf1_Leaf [simp]: "wf1 st h Leaf \<longleftrightarrow> h = T \<and> 0 \<le> d1_len st"
  by (auto simp: wf1_def)

lemma wf1_NodeD:
  assumes "wf1 st h (Node l x r)"
  shows "h = x" "x \<noteq> T" "wf1 st (n1_left (d1_nodes st x)) l" "wf1 st (n1_right (d1_nodes st x)) r"
    "0 \<le> x" "x < d1_len st" "x \<notin> set (inorder l)" "x \<notin> set (inorder r)"
    "set (inorder l) \<inter> set (inorder r) = {}"
  using assms by (auto simp: wf1_def)

lemma wf1_T: "wf1 st T t \<Longrightarrow> t = Leaf"
  by (cases t) (auto simp: wf1_def)

lemma wf1_not_T: "wf1 st h t \<Longrightarrow> h \<noteq> T \<Longrightarrow> \<exists>l r. t = Node l h r"
  by (cases t) (auto simp: wf1_def)

lemma wf1_frame:
  assumes "wf1 st h t" "mod1 H st st'" "H \<inter> set (inorder t) = {}"
  shows "wf1 st' h t \<and> ivs1 st' t = ivs1 st t"
proof -
  have eq: "d1_nodes st' x = d1_nodes st x" if "x \<in> set (inorder t)" for x
  proof -
    from that assms(1) have "x < d1_len st" by (auto simp: wf1_def)
    moreover from that assms(3) have "x \<notin> H" by blast
    ultimately show ?thesis using assms(2) by (simp add: mod1_def)
  qed
  from assms(1) have "rep1 (d1_nodes st') h t"
    by (auto simp: wf1_def intro: rep1_frame eq)
  moreover have "ivs1 st' t = ivs1 st t" by (rule ivs1_frame) (rule eq)
  ultimately show ?thesis using assms(1,2) by (fastforce simp: wf1_def mod1_def)
qed

lemma size_le_len:
  assumes "wf1 st h t"
  shows "int (size t) \<le> d1_len st"
proof -
  have sz: "size t = length (inorder t)" by (induction t) auto
  from assms have d: "distinct (inorder t)" and s: "set (inorder t) \<subseteq> {0..<d1_len st}" and n: "0 \<le> d1_len st"
    by (auto simp: wf1_def)
  from d have "length (inorder t) = card (set (inorder t))" by (simp add: distinct_card)
  also have "\<dots> \<le> card {0..<d1_len st}" by (rule card_mono) (use s in auto)
  also have "\<dots> = nat (d1_len st)" by simp
  finally show ?thesis using n sz by simp
qed

lemma T_val: "T = 32767" by (simp add: T_def)

lemma d1_new_node_eq:
  assumes "0 \<le> d1_len st" "d1_len st < T"
  shows "d1_new_node st a b l r =
     (d1_len st, st\<lparr>d1_len := d1_len st + 1,
        d1_nodes := (d1_nodes st)(d1_len st := \<lparr>n1_low = a, n1_high = b, n1_left = l, n1_right = r\<rparr>)\<rparr>)"
proof -
  from assms have "i16 (d1_len st + 1) = d1_len st + 1"
    by (intro i16_id) (auto simp: T_def)
  then show ?thesis by (simp add: d1_new_node_def Let_def)
qed

lemma wf1_new_node:
  assumes l: "wf1 st l ta" and r: "wf1 st r tb"
    and dis: "set (inorder ta) \<inter> set (inorder tb) = {}" and cap: "d1_len st < T"
    and st': "st' = st\<lparr>d1_len := d1_len st + 1,
        d1_nodes := (d1_nodes st)(d1_len st := \<lparr>n1_low = a, n1_high = b, n1_left = l, n1_right = r\<rparr>)\<rparr>"
  shows "wf1 st' (d1_len st) (Node ta (d1_len st) tb)"
    and "ivs1 st' (Node ta (d1_len st) tb) = ivs1 st ta @ (a, b) # ivs1 st tb"
    and "mod1 {} st st'"
proof -
  show m: "mod1 {} st st'" by (simp add: st' mod1_def)
  from wf1_frame [OF l m] have l': "wf1 st' l ta" "ivs1 st' ta = ivs1 st ta" by auto
  from wf1_frame [OF r m] have r': "wf1 st' r tb" "ivs1 st' tb = ivs1 st tb" by auto
  from l r have b: "\<forall>x\<in>set (inorder ta) \<union> set (inorder tb). x < d1_len st" "0 \<le> d1_len st"
    by (auto simp: wf1_def)
  have n: "d1_nodes st' (d1_len st) = \<lparr>n1_low = a, n1_high = b, n1_left = l, n1_right = r\<rparr>"
    "d1_len st' = d1_len st + 1"
    by (simp_all add: st')
  show "wf1 st' (d1_len st) (Node ta (d1_len st) tb)"
    using l' r' b dis cap n by (fastforce simp: wf1_def)
  show "ivs1 st' (Node ta (d1_len st) tb) = ivs1 st ta @ (a, b) # ivs1 st tb"
    using l'(2) r'(2) n by (simp add: d1_interval_def)
qed

lemma d1_lte:
  assumes "wf1 st x t" "iso_list (ivs1 st t)" "d1_len st + int (size t) < T"
  shows "\<exists>x' st'. d1_less_than_or_equal st x low bl bh = Some ((x', low_of low (ivs1 st t)), st') \<and>
     copied1 st t (takeWhile (\<lambda>iv. snd iv + 1 < low) (ivs1 st t)) x' st'"
  using assms
proof (induction t arbitrary: st x bl bh)
  case Leaf
  then show ?case
    by (subst d1_less_than_or_equal.simps) (auto simp: copied1_def intro!: exI [of _ Leaf])
next
  case (Node ta x0 tb)
  from Node.prems(1) have x_eq: "x0 = x" by (simp add: wf1_def)
  note d = wf1_NodeD [OF Node.prems(1), unfolded x_eq]
  let ?s = "n1_low (d1_nodes st x)" and ?e = "n1_high (d1_nodes st x)"
  let ?l = "n1_left (d1_nodes st x)" and ?r = "n1_right (d1_nodes st x)"
  let ?P = "\<lambda>iv. snd iv + 1 < low"
  have iv: "d1_interval st x0 = (?s, ?e)" by (simp add: d1_interval_def x_eq)
  from Node.prems(2) iv have iso: "iso_list (ivs1 st ta @ (?s, ?e) # ivs1 st tb)" by simp
  note i = iso_list_NodeD [OF iso]
  have xT: "x \<noteq> T" using d(2) by simp
  consider (R) "low > ?e + 1" | (M) "\<not> low > ?e + 1" "low \<ge> ?s"
    | (L) "\<not> low > ?e + 1" "\<not> low \<ge> ?s"
    by blast
  then show ?case
  proof cases
    case R
    have allP: "\<forall>iv\<in>set (ivs1 st ta @ [(?s, ?e)]). snd iv + 1 < low"
      using i(3,4) R by auto
    have tw: "takeWhile ?P (ivs1 st ta @ (?s, ?e) # ivs1 st tb) = ivs1 st ta @ (?s, ?e) # takeWhile ?P (ivs1 st tb)"
      using allP takeWhile_append2 [of "ivs1 st ta @ [(?s, ?e)]" ?P "ivs1 st tb"] by simp
    have lw: "low_of low (ivs1 st ta @ (?s, ?e) # ivs1 st tb) = low_of low (ivs1 st tb)"
      using low_of_append_below [OF allP, of "ivs1 st tb"] by simp
    from Node.prems(3) have cap: "d1_len st + int (size tb) < T" by simp
    from Node.IH(2) [OF d(4) i(2) cap, of "i16 (?e + 1)" bl]
    obtain r2 st1 where rec: "d1_less_than_or_equal st ?r low (i16 (?e + 1)) bl =
        Some ((r2, low_of low (ivs1 st tb)), st1)"
      and c: "copied1 st tb (takeWhile ?P (ivs1 st tb)) r2 st1"
      by blast
    from c obtain tb' where m1: "mod1 {} st st1" and l1: "d1_len st1 \<le> d1_len st + int (size tb)"
      and w1: "wf1 st1 r2 tb'" and s1: "set (inorder tb') \<subseteq> set (inorder tb) \<union> {d1_len st..<d1_len st1}"
      and i1: "ivs1 st1 tb' = takeWhile ?P (ivs1 st tb)"
      by (auto simp: copied1_def)
    from m1 d(6) have nx: "d1_nodes st1 x = d1_nodes st x" by (simp add: mod1_def)
    from wf1_frame [OF d(3) m1] have la: "wf1 st1 ?l ta" "ivs1 st1 ta = ivs1 st ta" by auto
    from w1 have len1: "0 \<le> d1_len st1" by (simp add: wf1_def)
    from l1 Node.prems(3) have cap1: "d1_len st1 < T" by simp
    define st2 where "st2 = st1\<lparr>d1_len := d1_len st1 + 1,
        d1_nodes := (d1_nodes st1)(d1_len st1 := \<lparr>n1_low = ?s, n1_high = ?e, n1_left = ?l, n1_right = r2\<rparr>)\<rparr>"
    have nn: "d1_new_node st1 ?s ?e ?l r2 = (d1_len st1, st2)"
      unfolding st2_def by (rule d1_new_node_eq [OF len1 cap1])
    have dis: "set (inorder ta) \<inter> set (inorder tb') = {}"
    proof -
      from d(3) have "\<forall>y\<in>set (inorder ta). y < d1_len st" by (auto simp: wf1_def)
      with s1 d(9) show ?thesis by fastforce
    qed
    note w = wf1_new_node [OF la(1) w1 dis cap1 st2_def]
    have low: "min low (low_of low (ivs1 st tb)) = low_of low (ivs1 st tb)"
      using low_of_le [of low "ivs1 st tb"] by simp
    have res: "d1_less_than_or_equal st x low bl bh = Some ((d1_len st1, low_of low (ivs1 st tb)), st2)"
      using R xT rec nn
      by (subst d1_less_than_or_equal.simps) (simp add: Let_def nx low)
    have "copied1 st (Node ta x0 tb) (takeWhile ?P (ivs1 st (Node ta x0 tb))) (d1_len st1) st2"
      unfolding copied1_def
    proof (intro conjI exI [of _ "Node ta (d1_len st1) tb'"])
      show "mod1 {} st st2" using m1 w(3) by (rule mod1_trans)
      show "d1_len st2 \<le> d1_len st + int (size (Node ta x0 tb))"
        using l1 by (simp add: st2_def)
      show "wf1 st2 (d1_len st1) (Node ta (d1_len st1) tb')" by (rule w(1))
      show "set (inorder (Node ta (d1_len st1) tb')) \<subseteq> set (inorder (Node ta x0 tb)) \<union> {d1_len st..<d1_len st2}"
        using s1 m1 by (auto simp: st2_def mod1_def)
      show "ivs1 st2 (Node ta (d1_len st1) tb') = takeWhile ?P (ivs1 st (Node ta x0 tb))"
        using w(2) la(2) i1 by (simp add: iv tw)
    qed
    with res show ?thesis by (auto simp: iv lw)
  next
    case M
    have allP: "\<forall>iv\<in>set (ivs1 st ta). snd iv + 1 < low"
      using i(4) M by auto
    have tw: "takeWhile ?P (ivs1 st ta @ (?s, ?e) # ivs1 st tb) = ivs1 st ta"
      using allP takeWhile_append2 [of "ivs1 st ta" ?P "(?s, ?e) # ivs1 st tb"] M by simp
    have lw: "low_of low (ivs1 st ta @ (?s, ?e) # ivs1 st tb) = ?s"
      using low_of_append_below [OF allP, of "(?s, ?e) # ivs1 st tb"] M by simp
    have res: "d1_less_than_or_equal st x low bl bh = Some ((?l, ?s), d1_blit st (i16 (?e + 1)) bh)"
      using M xT by (subst d1_less_than_or_equal.simps) (simp add: Let_def)
    have "copied1 st (Node ta x0 tb) (ivs1 st ta) ?l (d1_blit st (i16 (?e + 1)) bh)"
      unfolding copied1_def
      by (intro conjI exI [of _ ta]) (use d(3) in auto)
    with res show ?thesis by (auto simp: iv lw tw)
  next
    case L
    have nP: "\<not> ?P (?s, ?e)" using L by simp
    have tw: "takeWhile ?P (ivs1 st ta @ (?s, ?e) # ivs1 st tb) = takeWhile ?P (ivs1 st ta)"
      using takeWhile_tail [of ?P "(?s, ?e)" "ivs1 st ta" "ivs1 st tb"] nP by simp
    have lw: "low_of low (ivs1 st ta @ (?s, ?e) # ivs1 st tb) = low_of low (ivs1 st ta)"
      using low_of_append_stop [of "(?s, ?e)" low "ivs1 st ta" "ivs1 st tb"] L by simp
    define st2 where "st2 = (let st1 = d1_blit st (i16 (?e + 1)) bh in
        if n1_left (d1_nodes st1 x) = T then d1_blit st1 bl (i16 (n1_low (d1_nodes st1 x) - 1)) else st1)"
    have s2: "d1_nodes st2 = d1_nodes st" "d1_len st2 = d1_len st" "wf1 st2 = wf1 st" "ivs1 st2 = ivs1 st"
      "mod1 {} st2 = mod1 {} st"
      by (auto simp: st2_def Let_def fun_eq_iff)
    from Node.prems(3) have cap: "d1_len st2 + int (size ta) < T" by (simp add: s2)
    from d(3) have w2: "wf1 st2 ?l ta" by (simp add: s2)
    from i(1) have i2: "iso_list (ivs1 st2 ta)" by (simp add: s2)
    from Node.IH(1) [OF w2 i2 cap, of bl "i16 (?s - 1)"]
    obtain x' st' where rec: "d1_less_than_or_equal st2 ?l low bl (i16 (?s - 1)) =
        Some ((x', low_of low (ivs1 st ta)), st')"
      and c: "copied1 st2 ta (takeWhile ?P (ivs1 st ta)) x' st'"
      by (auto simp: s2)
    have res: "d1_less_than_or_equal st x low bl bh = Some ((x', low_of low (ivs1 st ta)), st')"
      using L xT rec
      by (subst d1_less_than_or_equal.simps) (auto simp: Let_def st2_def split: if_splits)
    from c have "copied1 st (Node ta x0 tb) (takeWhile ?P (ivs1 st ta)) x' st'"
      by (auto simp: copied1_def s2)
    with res show ?thesis by (auto simp: iv lw tw)
  qed
qed

lemma d1_gte:
  assumes "wf1 st x t" "iso_list (ivs1 st t)" "d1_len st + int (size t) < T"
  shows "\<exists>x' st'. d1_greater_than_or_equal st x high bl bh = Some ((x', high_of high (ivs1 st t)), st') \<and>
     copied1 st t (dropWhile (\<lambda>iv. fst iv \<le> high + 1) (ivs1 st t)) x' st'"
  using assms
proof (induction t arbitrary: st x bl bh)
  case Leaf
  then show ?case
    by (subst d1_greater_than_or_equal.simps) (auto simp: copied1_def intro!: exI [of _ Leaf])
next
  case (Node ta x0 tb)
  from Node.prems(1) have x_eq: "x0 = x" by (simp add: wf1_def)
  note d = wf1_NodeD [OF Node.prems(1), unfolded x_eq]
  let ?s = "n1_low (d1_nodes st x)" and ?e = "n1_high (d1_nodes st x)"
  let ?l = "n1_left (d1_nodes st x)" and ?r = "n1_right (d1_nodes st x)"
  let ?Q = "\<lambda>iv. fst iv \<le> high + 1"
  have iv: "d1_interval st x0 = (?s, ?e)" by (simp add: d1_interval_def x_eq)
  from Node.prems(2) iv have iso: "iso_list (ivs1 st ta @ (?s, ?e) # ivs1 st tb)" by simp
  note i = iso_list_NodeD [OF iso]
  have xT: "x \<noteq> T" using d(2) by simp
  consider (L) "high < ?s - 1" | (M) "\<not> high < ?s - 1" "high \<le> ?e"
    | (R) "\<not> high < ?s - 1" "\<not> high \<le> ?e"
    by blast
  then show ?case
  proof cases
    case L
    have nQ: "\<not> ?Q (?s, ?e)" using L by simp
    have dw: "dropWhile ?Q (ivs1 st ta @ (?s, ?e) # ivs1 st tb) = dropWhile ?Q (ivs1 st ta) @ (?s, ?e) # ivs1 st tb"
      using dropWhile_append3 [of ?Q "(?s, ?e)" "ivs1 st ta" "ivs1 st tb"] nQ by simp
    have hw: "high_of high (ivs1 st ta @ (?s, ?e) # ivs1 st tb) = high_of high (ivs1 st ta)"
      using high_of_append_stop [of "(?s, ?e)" high "ivs1 st ta" "ivs1 st tb"] nQ by simp
    from Node.prems(3) have cap: "d1_len st + int (size ta) < T" by simp
    from Node.IH(1) [OF d(3) i(1) cap, of bh "i16 (?s - 1)"]
    obtain l2 st1 where rec: "d1_greater_than_or_equal st ?l high bh (i16 (?s - 1)) =
        Some ((l2, high_of high (ivs1 st ta)), st1)"
      and c: "copied1 st ta (dropWhile ?Q (ivs1 st ta)) l2 st1"
      by blast
    from c obtain ta' where m1: "mod1 {} st st1" and l1: "d1_len st1 \<le> d1_len st + int (size ta)"
      and w1: "wf1 st1 l2 ta'" and s1: "set (inorder ta') \<subseteq> set (inorder ta) \<union> {d1_len st..<d1_len st1}"
      and i1: "ivs1 st1 ta' = dropWhile ?Q (ivs1 st ta)"
      by (auto simp: copied1_def)
    from m1 d(6) have nx: "d1_nodes st1 x = d1_nodes st x" by (simp add: mod1_def)
    from wf1_frame [OF d(4) m1] have rb: "wf1 st1 ?r tb" "ivs1 st1 tb = ivs1 st tb" by auto
    from w1 have len1: "0 \<le> d1_len st1" by (simp add: wf1_def)
    from l1 Node.prems(3) have cap1: "d1_len st1 < T" by simp
    define st2 where "st2 = st1\<lparr>d1_len := d1_len st1 + 1,
        d1_nodes := (d1_nodes st1)(d1_len st1 := \<lparr>n1_low = ?s, n1_high = ?e, n1_left = l2, n1_right = ?r\<rparr>)\<rparr>"
    have nn: "d1_new_node st1 ?s ?e l2 ?r = (d1_len st1, st2)"
      unfolding st2_def by (rule d1_new_node_eq [OF len1 cap1])
    have dis: "set (inorder ta') \<inter> set (inorder tb) = {}"
    proof -
      from d(4) have "\<forall>y\<in>set (inorder tb). y < d1_len st" by (auto simp: wf1_def)
      with s1 d(9) show ?thesis by fastforce
    qed
    note w = wf1_new_node [OF w1 rb(1) dis cap1 st2_def]
    have hi: "max high (high_of high (ivs1 st ta)) = high_of high (ivs1 st ta)"
      using high_of_ge [of high "ivs1 st ta"] by simp
    have res: "d1_greater_than_or_equal st x high bl bh = Some ((d1_len st1, high_of high (ivs1 st ta)), st2)"
      using L xT rec nn
      by (subst d1_greater_than_or_equal.simps) (simp add: Let_def nx hi)
    have "copied1 st (Node ta x0 tb) (dropWhile ?Q (ivs1 st (Node ta x0 tb))) (d1_len st1) st2"
      unfolding copied1_def
    proof (intro conjI exI [of _ "Node ta' (d1_len st1) tb"])
      show "mod1 {} st st2" using m1 w(3) by (rule mod1_trans)
      show "d1_len st2 \<le> d1_len st + int (size (Node ta x0 tb))"
        using l1 by (simp add: st2_def)
      show "wf1 st2 (d1_len st1) (Node ta' (d1_len st1) tb)" by (rule w(1))
      show "set (inorder (Node ta' (d1_len st1) tb)) \<subseteq> set (inorder (Node ta x0 tb)) \<union> {d1_len st..<d1_len st2}"
        using s1 m1 by (auto simp: st2_def mod1_def)
      show "ivs1 st2 (Node ta' (d1_len st1) tb) = dropWhile ?Q (ivs1 st (Node ta x0 tb))"
        using w(2) rb(2) i1 by (simp add: iv dw)
    qed
    with res show ?thesis by (auto simp: iv hw)
  next
    case M
    have far: "\<forall>iv\<in>set (ivs1 st tb). high + 1 < fst iv" using i(5) M by auto
    have h1: "high_of high ((?s, ?e) # ivs1 st tb) = ?e"
      using high_of_far [OF far] M by simp
    have allQ: "\<forall>iv\<in>set (ivs1 st ta). fst iv \<le> high + 1 \<and> snd iv \<le> high_of high ((?s, ?e) # ivs1 st tb)"
      unfolding h1 using i(3,4,6) M by fastforce
    have dn: "dropWhile ?Q (ivs1 st tb) = ivs1 st tb"
      by (rule dropWhile_none) (use far in auto)
    have dw: "dropWhile ?Q (ivs1 st ta @ (?s, ?e) # ivs1 st tb) = ivs1 st tb"
      using allQ dropWhile_append2 [of "ivs1 st ta" ?Q "(?s, ?e) # ivs1 st tb"] M dn by simp
    have hw: "high_of high (ivs1 st ta @ (?s, ?e) # ivs1 st tb) = ?e"
      using high_of_append_eq [OF allQ] h1 by simp
    have res: "d1_greater_than_or_equal st x high bl bh = Some ((?r, ?e), d1_blit st bl (i16 (?s - 1)))"
      using M xT by (subst d1_greater_than_or_equal.simps) (simp add: Let_def)
    have "copied1 st (Node ta x0 tb) (ivs1 st tb) ?r (d1_blit st bl (i16 (?s - 1)))"
      unfolding copied1_def
      by (intro conjI exI [of _ tb]) (use d(4) in auto)
    with res show ?thesis by (auto simp: iv hw dw)
  next
    case R
    have allQ: "\<forall>iv\<in>set (ivs1 st ta @ [(?s, ?e)]). fst iv \<le> high + 1 \<and> snd iv \<le> high"
      using i(3,4,6) R by fastforce
    have dw: "dropWhile ?Q (ivs1 st ta @ (?s, ?e) # ivs1 st tb) = dropWhile ?Q (ivs1 st tb)"
      using allQ dropWhile_append2 [of "ivs1 st ta @ [(?s, ?e)]" ?Q "ivs1 st tb"] by simp
    have hw: "high_of high (ivs1 st ta @ (?s, ?e) # ivs1 st tb) = high_of high (ivs1 st tb)"
      using high_of_append_above [OF allQ, of "ivs1 st tb"] by simp
    define st2 where "st2 = (let st1 = d1_blit st bl (i16 (?s - 1)) in
        if n1_right (d1_nodes st1 x) = T then d1_blit st1 (i16 (n1_high (d1_nodes st1 x) + 1)) bh else st1)"
    have s2: "d1_nodes st2 = d1_nodes st" "d1_len st2 = d1_len st" "wf1 st2 = wf1 st" "ivs1 st2 = ivs1 st"
      "mod1 {} st2 = mod1 {} st"
      by (auto simp: st2_def Let_def fun_eq_iff)
    from Node.prems(3) have cap: "d1_len st2 + int (size tb) < T" by (simp add: s2)
    from d(4) have w2: "wf1 st2 ?r tb" by (simp add: s2)
    from i(2) have i2: "iso_list (ivs1 st2 tb)" by (simp add: s2)
    from Node.IH(2) [OF w2 i2 cap, of "i16 (?e + 1)" bh]
    obtain x' st' where rec: "d1_greater_than_or_equal st2 ?r high (i16 (?e + 1)) bh =
        Some ((x', high_of high (ivs1 st tb)), st')"
      and c: "copied1 st2 tb (dropWhile ?Q (ivs1 st tb)) x' st'"
      by (auto simp: s2)
    have res: "d1_greater_than_or_equal st x high bl bh = Some ((x', high_of high (ivs1 st tb)), st')"
      using R xT rec
      by (subst d1_greater_than_or_equal.simps) (auto simp: Let_def st2_def split: if_splits)
    from c have "copied1 st (Node ta x0 tb) (dropWhile ?Q (ivs1 st tb)) x' st'"
      by (auto simp: copied1_def s2)
    with res show ?thesis by (auto simp: iv hw dw)
  qed
qed


lemma wf1_upd:
  assumes "wf1 st h t" "x \<notin> set (inorder t)"
  shows "wf1 (st\<lparr>d1_nodes := (d1_nodes st)(x := v)\<rparr>) h t"
    and "ivs1 (st\<lparr>d1_nodes := (d1_nodes st)(x := v)\<rparr>) t = ivs1 st t"
proof -
  have "mod1 {x} st (st\<lparr>d1_nodes := (d1_nodes st)(x := v)\<rparr>)" by (simp add: mod1_def)
  from wf1_frame [OF assms(1) this] assms(2)
  show "wf1 (st\<lparr>d1_nodes := (d1_nodes st)(x := v)\<rparr>) h t"
    and "ivs1 (st\<lparr>d1_nodes := (d1_nodes st)(x := v)\<rparr>) t = ivs1 st t"
    by auto
qed

lemma wf1_Node_upd:
  assumes l: "wf1 st l ta" and r: "wf1 st r tb"
    and dis: "set (inorder ta) \<inter> set (inorder tb) = {}"
    and x: "x \<notin> set (inorder ta)" "x \<notin> set (inorder tb)" "0 \<le> x" "x < d1_len st" "x \<noteq> T"
    and v: "n1_left v = l" "n1_right v = r"
  shows "wf1 (st\<lparr>d1_nodes := (d1_nodes st)(x := v)\<rparr>) x (Node ta x tb)"
    and "ivs1 (st\<lparr>d1_nodes := (d1_nodes st)(x := v)\<rparr>) (Node ta x tb) =
       ivs1 st ta @ (n1_low v, n1_high v) # ivs1 st tb"
proof -
  let ?st = "st\<lparr>d1_nodes := (d1_nodes st)(x := v)\<rparr>"
  note a = wf1_upd [OF l x(1), of v] and b = wf1_upd [OF r x(2), of v]
  show "wf1 ?st x (Node ta x tb)"
    using a(1) b(1) dis x v by (auto simp: wf1_def)
  show "ivs1 ?st (Node ta x tb) = ivs1 st ta @ (n1_low v, n1_high v) # ivs1 st tb"
    using a(2) b(2) by (simp add: d1_interval_def)
qed

lemma d1_ins:
  assumes "wf1 st x t" "iso_list (ivs1 st t)" "low \<le> high" "d1_len st + int (size t) < T"
  shows "\<exists>x' st'. d1_insert_range st x low high = Some (x', st') \<and> ins1 st t low high x' st'"
  using assms(1,2,4)
proof (induction t arbitrary: st x)
  case Leaf
  then have xT: "x = T" and len: "0 \<le> d1_len st" "d1_len st < T" by auto
  let ?st1 = "d1_blit st low high"
  define st2 where "st2 = ?st1\<lparr>d1_len := d1_len ?st1 + 1,
        d1_nodes := (d1_nodes ?st1)(d1_len ?st1 := \<lparr>n1_low = low, n1_high = high, n1_left = T, n1_right = T\<rparr>)\<rparr>"
  have nn: "d1_new_node ?st1 low high T T = (d1_len st, st2)"
    using d1_new_node_eq [of ?st1 low high T T] len by (simp add: st2_def)
  have l: "wf1 ?st1 T Leaf" using len by simp
  note w = wf1_new_node [OF l l _ _ st2_def]
  have res: "d1_insert_range st x low high = Some (d1_len st, st2)"
    using xT nn by (subst d1_insert_range.simps) simp
  have "ins1 st Leaf low high (d1_len st) st2"
    unfolding ins1_def
  proof (intro conjI exI [of _ "Node Leaf (d1_len st) Leaf"])
    show "mod1 (set (inorder Leaf)) st st2" using w(3) len by simp
    show "d1_len st2 \<le> d1_len st + int (size Leaf) + 1" by (simp add: st2_def)
    show "wf1 st2 (d1_len st) (Node Leaf (d1_len st) Leaf)" using w(1) len by simp
    show "set (inorder (Node Leaf (d1_len st) Leaf)) \<subseteq> set (inorder Leaf) \<union> {d1_len st..<d1_len st2}"
      by (simp add: st2_def)
    show "inserted (ivs1 st Leaf) low high (ivs1 st2 (Node Leaf (d1_len st) Leaf))"
      using w(2) len assms(3) by (simp add: inserted_empty)
    show "{low..high} \<subseteq> cover (ivs1 st Leaf) \<longrightarrow> d1_blits st2 = d1_blits st"
      using assms(3) by simp
  qed
  with res show ?case by blast
next
  case (Node ta x0 tb)
  from Node.prems(1) have x_eq: "x0 = x" by (simp add: wf1_def)
  note d = wf1_NodeD [OF Node.prems(1), unfolded x_eq]
  let ?s = "n1_low (d1_nodes st x)" and ?e = "n1_high (d1_nodes st x)"
  let ?l = "n1_left (d1_nodes st x)" and ?r = "n1_right (d1_nodes st x)"
  have iv: "d1_interval st x0 = (?s, ?e)" by (simp add: d1_interval_def x_eq)
  have ivx: "d1_interval st x = (?s, ?e)" by (simp add: d1_interval_def)
  from Node.prems(2) iv have iso: "iso_list (ivs1 st ta @ (?s, ?e) # ivs1 st tb)" by simp
  note i = iso_list_NodeD [OF iso]
  have xT: "x \<noteq> T" using d(2) by simp
  have ivs: "ivs1 st (Node ta x0 tb) = ivs1 st ta @ (?s, ?e) # ivs1 st tb" by (simp add: iv)
  have sz: "int (size (Node ta x0 tb)) = int (size ta) + int (size tb) + 1" by simp
  consider (R) "?e + 1 < low" | (L) "high + 1 < ?s" | (M) "\<not> ?e + 1 < low" "\<not> high + 1 < ?s"
    by blast
  then show ?case
  proof cases
    case R
    with i(3) assms(3) have c: "?s < low" "\<not> (?e \<ge> low \<or> ?e + 1 = low)" by auto
    from Node.prems(3) have cap: "d1_len st + int (size tb) < T" by simp
    from Node.IH(2) [OF d(4) i(2) cap]
    obtain r' st1 where rec: "d1_insert_range st ?r low high = Some (r', st1)"
      and p: "ins1 st tb low high r' st1"
      by blast
    from p obtain tb' where m1: "mod1 (set (inorder tb)) st st1"
      and l1: "d1_len st1 \<le> d1_len st + int (size tb) + 1"
      and w1: "wf1 st1 r' tb'" and s1: "set (inorder tb') \<subseteq> set (inorder tb) \<union> {d1_len st..<d1_len st1}"
      and in1: "inserted (ivs1 st tb) low high (ivs1 st1 tb')"
      and b1: "{low..high} \<subseteq> cover (ivs1 st tb) \<longrightarrow> d1_blits st1 = d1_blits st"
      by (auto simp: ins1_def)
    from m1 d(6,8) have nx: "d1_nodes st1 x = d1_nodes st x" by (simp add: mod1_def)
    from d(9) have "set (inorder tb) \<inter> set (inorder ta) = {}" by blast
    from wf1_frame [OF d(3) m1 this] have la: "wf1 st1 ?l ta" "ivs1 st1 ta = ivs1 st ta" by auto
    define st2 where "st2 = st1\<lparr>d1_nodes := (d1_nodes st1)(x := (d1_nodes st1 x)\<lparr>n1_right := r'\<rparr>)\<rparr>"
    have res: "d1_insert_range st x low high = Some (x, st2)"
      using xT c rec
      by (subst d1_insert_range.simps) (simp add: Let_def st2_def)
    from m1 have len01: "d1_len st \<le> d1_len st1" by (simp add: mod1_def)
    have dis: "set (inorder ta) \<inter> set (inorder tb') = {}"
    proof -
      from d(3) have "\<forall>y\<in>set (inorder ta). y < d1_len st" by (auto simp: wf1_def)
      with s1 d(9) show ?thesis by fastforce
    qed
    have xn: "x \<notin> set (inorder tb')" using s1 d(6,8) by auto
    have "x < d1_len st1" using d(6) len01 by simp
    note w = wf1_Node_upd [OF la(1) w1 dis d(7) xn d(5) this d(2), of "(d1_nodes st1 x)\<lparr>n1_right := r'\<rparr>",
        folded st2_def]
    have w2: "wf1 st2 x (Node ta x tb')" by (rule w(1)) (simp_all add: nx)
    have i2: "ivs1 st2 (Node ta x tb') = ivs1 st ta @ (?s, ?e) # ivs1 st1 tb'"
      using w(2) by (simp add: nx la(2))
    have "ins1 st (Node ta x0 tb) low high x st2"
      unfolding ins1_def
    proof (intro conjI exI [of _ "Node ta x tb'"])
      show "mod1 (set (inorder (Node ta x0 tb))) st st2"
        using m1 by (auto simp: mod1_def st2_def x_eq)
      show "d1_len st2 \<le> d1_len st + int (size (Node ta x0 tb)) + 1"
        using l1 by (simp add: st2_def)
      show "wf1 st2 x (Node ta x tb')" by (rule w2)
      show "set (inorder (Node ta x tb')) \<subseteq> set (inorder (Node ta x0 tb)) \<union> {d1_len st..<d1_len st2}"
        using s1 by (auto simp: st2_def x_eq)
      show "inserted (ivs1 st (Node ta x0 tb)) low high (ivs1 st2 (Node ta x tb'))"
        unfolding ivs i2 by (rule inserted_right [OF iso in1 R])
      show "{low..high} \<subseteq> cover (ivs1 st (Node ta x0 tb)) \<longrightarrow> d1_blits st2 = d1_blits st"
        unfolding ivs using covered_right [OF iso _ R] b1 by (auto simp: st2_def)
    qed
    with res show ?thesis by blast
  next
    case L
    with i(3) assms(3) have c: "\<not> ?s < low" "\<not> (high \<ge> ?s \<or> high + 1 = ?s)" "low \<noteq> ?s"
      by auto
    from Node.prems(3) have cap: "d1_len st + int (size ta) < T" by simp
    from Node.IH(1) [OF d(3) i(1) cap]
    obtain l' st1 where rec: "d1_insert_range st ?l low high = Some (l', st1)"
      and p: "ins1 st ta low high l' st1"
      by blast
    from p obtain ta' where m1: "mod1 (set (inorder ta)) st st1"
      and l1: "d1_len st1 \<le> d1_len st + int (size ta) + 1"
      and w1: "wf1 st1 l' ta'" and s1: "set (inorder ta') \<subseteq> set (inorder ta) \<union> {d1_len st..<d1_len st1}"
      and in1: "inserted (ivs1 st ta) low high (ivs1 st1 ta')"
      and b1: "{low..high} \<subseteq> cover (ivs1 st ta) \<longrightarrow> d1_blits st1 = d1_blits st"
      by (auto simp: ins1_def)
    from m1 d(6,7) have nx: "d1_nodes st1 x = d1_nodes st x" by (simp add: mod1_def)
    from wf1_frame [OF d(4) m1 d(9)] have rb: "wf1 st1 ?r tb" "ivs1 st1 tb = ivs1 st tb" by auto
    define st2 where "st2 = st1\<lparr>d1_nodes := (d1_nodes st1)(x := (d1_nodes st1 x)\<lparr>n1_left := l'\<rparr>)\<rparr>"
    have res: "d1_insert_range st x low high = Some (x, st2)"
      using xT c rec
      by (subst d1_insert_range.simps) (simp add: Let_def st2_def)
    from m1 have len01: "d1_len st \<le> d1_len st1" by (simp add: mod1_def)
    have dis: "set (inorder ta') \<inter> set (inorder tb) = {}"
    proof -
      from d(4) have "\<forall>y\<in>set (inorder tb). y < d1_len st" by (auto simp: wf1_def)
      with s1 d(9) show ?thesis by fastforce
    qed
    have xn: "x \<notin> set (inorder ta')" using s1 d(6,7) by auto
    have "x < d1_len st1" using d(6) len01 by simp
    note w = wf1_Node_upd [OF w1 rb(1) dis xn d(8) d(5) this d(2), of "(d1_nodes st1 x)\<lparr>n1_left := l'\<rparr>",
        folded st2_def]
    have w2: "wf1 st2 x (Node ta' x tb)" by (rule w(1)) (simp_all add: nx)
    have i2: "ivs1 st2 (Node ta' x tb) = ivs1 st1 ta' @ (?s, ?e) # ivs1 st tb"
      using w(2) by (simp add: nx rb(2))
    have "ins1 st (Node ta x0 tb) low high x st2"
      unfolding ins1_def
    proof (intro conjI exI [of _ "Node ta' x tb"])
      show "mod1 (set (inorder (Node ta x0 tb))) st st2"
        using m1 by (auto simp: mod1_def st2_def x_eq)
      show "d1_len st2 \<le> d1_len st + int (size (Node ta x0 tb)) + 1"
        using l1 by (simp add: st2_def)
      show "wf1 st2 x (Node ta' x tb)" by (rule w2)
      show "set (inorder (Node ta' x tb)) \<subseteq> set (inorder (Node ta x0 tb)) \<union> {d1_len st..<d1_len st2}"
        using s1 by (auto simp: st2_def x_eq)
      show "inserted (ivs1 st (Node ta x0 tb)) low high (ivs1 st2 (Node ta' x tb))"
        unfolding ivs i2 by (rule inserted_left [OF iso in1 L])
      show "{low..high} \<subseteq> cover (ivs1 st (Node ta x0 tb)) \<longrightarrow> d1_blits st2 = d1_blits st"
        unfolding ivs using covered_left [OF iso _ L] b1 by (auto simp: st2_def)
    qed
    with res show ?thesis by blast
  next
    case M
    then have meet: "\<not> high + 1 < ?s" "\<not> ?e + 1 < low" by auto
    show ?thesis
    proof (cases "low \<ge> ?s \<and> high \<le> ?e")
      case True
      have res: "d1_insert_range st x low high = Some (x, st)"
        using xT True M assms(3)
        by (subst d1_insert_range.simps) (auto simp: Let_def)
      have cov: "{low..high} \<subseteq> cover (ivs1 st (Node ta x0 tb))"
        unfolding ivs using True by auto
      have same: "inserted (ivs1 st (Node ta x0 tb)) low high (ivs1 st (Node ta x0 tb))"
        using cov Node.prems(2) by (auto simp: inserted_def)
      have "ins1 st (Node ta x0 tb) low high x st"
        unfolding ins1_def
        by (intro conjI exI [of _ "Node ta x0 tb"]) (use Node.prems(1) same in auto)
      with res show ?thesis by blast
    next
      case False
      define lo where "lo = min ?s low"
      define hi where "hi = max ?e high"
      define dbl where "dbl = (if ?s < low then i16 (max low (?e + 1)) else low)"
      define dbh where "dbh = (if ?s < low then high else i16 (min high (?s - 1)))"
      let ?P = "\<lambda>iv. snd iv + 1 < lo" and ?Q = "\<lambda>iv. fst iv \<le> hi + 1"
      from Node.prems(3) have cap: "d1_len st + int (size ta) < T" by simp
      from d1_lte [OF d(3) i(1) cap, of lo dbl dbh]
      obtain nl st1 where r1: "d1_less_than_or_equal st ?l lo dbl dbh =
          Some ((nl, low_of lo (ivs1 st ta)), st1)"
        and c1: "copied1 st ta (takeWhile ?P (ivs1 st ta)) nl st1"
        by blast
      from c1 obtain ta' where m1: "mod1 {} st st1" and l1: "d1_len st1 \<le> d1_len st + int (size ta)"
        and w1: "wf1 st1 nl ta'" and s1: "set (inorder ta') \<subseteq> set (inorder ta) \<union> {d1_len st..<d1_len st1}"
        and i1: "ivs1 st1 ta' = takeWhile ?P (ivs1 st ta)"
        by (auto simp: copied1_def)
      from m1 d(6) have nx1: "d1_nodes st1 x = d1_nodes st x" by (simp add: mod1_def)
      from wf1_frame [OF d(4) m1] have rb: "wf1 st1 ?r tb" "ivs1 st1 tb = ivs1 st tb" by auto
      from l1 Node.prems(3) have cap1: "d1_len st1 + int (size tb) < T" by simp
      from i(2) rb(2) have iso1: "iso_list (ivs1 st1 tb)" by simp
      from d1_gte [OF rb(1) iso1 cap1, of hi dbl dbh]
      obtain nr st2 where r2: "d1_greater_than_or_equal st1 ?r hi dbl dbh =
          Some ((nr, high_of hi (ivs1 st tb)), st2)"
        and c2: "copied1 st1 tb (dropWhile ?Q (ivs1 st tb)) nr st2"
        by (auto simp: rb(2))
      from c2 obtain tb' where m2: "mod1 {} st1 st2" and l2: "d1_len st2 \<le> d1_len st1 + int (size tb)"
        and w2: "wf1 st2 nr tb'" and s2: "set (inorder tb') \<subseteq> set (inorder tb) \<union> {d1_len st1..<d1_len st2}"
        and i2: "ivs1 st2 tb' = dropWhile ?Q (ivs1 st tb)"
        by (auto simp: copied1_def)
      from m1 m2 have len012: "d1_len st \<le> d1_len st1" "d1_len st1 \<le> d1_len st2" by (auto simp: mod1_def)
      from m2 d(6) len012 have nx2: "d1_nodes st2 x = d1_nodes st x" by (simp add: mod1_def nx1)
      from wf1_frame [OF w1 m2] have la2: "wf1 st2 nl ta'" "ivs1 st2 ta' = ivs1 st1 ta'" by auto
      define st3 where "st3 = (if ?l = T \<and> ?r = T then d1_blit st2 dbl dbh else st2)"
      have s3: "d1_nodes st3 = d1_nodes st2" "d1_len st3 = d1_len st2" "wf1 st3 = wf1 st2" "ivs1 st3 = ivs1 st2"
        by (auto simp: st3_def fun_eq_iff)
      define v where "v = \<lparr>n1_low = low_of lo (ivs1 st ta), n1_high = high_of hi (ivs1 st tb),
          n1_left = nl, n1_right = nr\<rparr>"
      define st4 where "st4 = st3\<lparr>d1_nodes := (d1_nodes st3)(x := v)\<rparr>"
      have lo_eq: "(if ?s < low then ?s else low) = lo" by (simp add: lo_def min_def)
      have hi_eq: "(if ?s < low then max ?e high else max high ?e) = hi" by (auto simp: hi_def max_def)
      have cond: "(if ?s < low then ?e \<ge> low \<or> ?e + 1 = low else high \<ge> ?s \<or> high + 1 = ?s)"
        using M by auto
      have nc: "(?s \<le> low \<and> high \<le> ?e) = False" using False by simp
      have r1': "Option.bind (d1_less_than_or_equal st ?l lo dbl dbh)
          (\<lambda>((new_left, new_low), s1).
             Option.bind (d1_greater_than_or_equal s1 (n1_right (d1_nodes s1 x)) hi dbl dbh)
             (\<lambda>((new_right, new_high), s2).
                let s3 = (if n1_left (d1_nodes s2 x) = T \<and> n1_right (d1_nodes s2 x) = T
                          then d1_blit s2 dbl dbh else s2) in
                Some (x, s3\<lparr>d1_nodes := (d1_nodes s3)(x := \<lparr>n1_low = new_low,
                   n1_high = new_high, n1_left = new_left, n1_right = new_right\<rparr>)\<rparr>))) =
          Some (x, st4)"
        by (simp add: r1 nx1 r2 nx2 st3_def st4_def v_def Let_def)
      have res: "d1_insert_range st x low high = Some (x, st4)"
      proof (cases "?s < low")
        case True
        then have c1: "(low \<le> ?e \<or> ?e + 1 = low) = True" using M by auto
        have vs: "lo = ?s" "hi = max ?e high" "dbl = i16 (max low (?e + 1))" "dbh = high"
          using True by (auto simp: lo_def hi_def dbl_def dbh_def)
        show ?thesis
          apply (subst d1_insert_range.simps)
          apply (simp only: True xT if_True if_False prod.case c1 nc Let_def)
          apply (rule r1' [unfolded vs Let_def])
          done
      next
        case F: False
        then have c1: "(?s \<le> high \<or> high + 1 = ?s) = True" using M by auto
        have vs: "lo = low" "hi = max high ?e" "dbl = low" "dbh = i16 (min high (?s - 1))"
          using F by (auto simp: lo_def hi_def dbl_def dbh_def)
        show ?thesis
          apply (subst d1_insert_range.simps)
          apply (simp only: F xT if_True if_False prod.case c1 nc Let_def)
          apply (rule r1' [unfolded vs Let_def])
          done
      qed
      have dis: "set (inorder ta') \<inter> set (inorder tb') = {}"
      proof -
        from d(3,4) have bnd: "\<And>y. y \<in> set (inorder ta) \<or> y \<in> set (inorder tb) \<Longrightarrow> y < d1_len st"
          by (auto simp: wf1_def)
        have False if a: "y \<in> set (inorder ta')" and b: "y \<in> set (inorder tb')" for y
        proof -
          from a s1 have a': "y \<in> set (inorder ta) \<or> (d1_len st \<le> y \<and> y < d1_len st1)" by auto
          from b s2 have b': "y \<in> set (inorder tb) \<or> (d1_len st1 \<le> y \<and> y < d1_len st2)" by auto
          from a' b' bnd [of y] d(9) len012 show False by auto
        qed
        then show ?thesis by blast
      qed
      have xa: "x \<notin> set (inorder ta')" using s1 d(6,7) by auto
      have xb: "x \<notin> set (inorder tb')" using s2 d(6,8) len012 by auto
      have xl: "x < d1_len st3" using d(6) len012 by (simp add: s3)
      from la2(1) w2 have la3: "wf1 st3 nl ta'" and rb3: "wf1 st3 nr tb'" by (simp_all add: s3)
      note w = wf1_Node_upd [OF la3 rb3 dis xa xb d(5) xl d(2), of v, folded st4_def]
      have w4: "wf1 st4 x (Node ta' x tb')" by (rule w(1)) (simp_all add: v_def)
      have i4: "ivs1 st4 (Node ta' x tb') = takeWhile ?P (ivs1 st ta) @
          (low_of lo (ivs1 st ta), high_of hi (ivs1 st tb)) # dropWhile ?Q (ivs1 st tb)"
        using w(2) by (simp add: v_def s3 la2(2) i1 i2)
      have ncov: "\<not> {low..high} \<subseteq> cover (ivs1 st ta @ (?s, ?e) # ivs1 st tb)"
        using covered_meet_bounds [OF iso _ assms(3) meet] False by auto
      have "ins1 st (Node ta x0 tb) low high x st4"
        unfolding ins1_def
      proof (intro conjI exI [of _ "Node ta' x tb'"])
        show "mod1 (set (inorder (Node ta x0 tb))) st st4"
          using m1 m2 by (auto simp: mod1_def st4_def s3 x_eq)
        show "d1_len st4 \<le> d1_len st + int (size (Node ta x0 tb)) + 1"
          using l1 l2 by (simp add: st4_def s3)
        show "wf1 st4 x (Node ta' x tb')" by (rule w4)
        show "set (inorder (Node ta' x tb')) \<subseteq> set (inorder (Node ta x0 tb)) \<union> {d1_len st..<d1_len st4}"
          using s1 s2 len012 by (auto simp: st4_def s3 x_eq)
        show "inserted (ivs1 st (Node ta x0 tb)) low high (ivs1 st4 (Node ta' x tb'))"
          unfolding ivs i4 by (rule inserted_meet [OF iso assms(3) meet lo_def hi_def])
        show "{low..high} \<subseteq> cover (ivs1 st (Node ta x0 tb)) \<longrightarrow> d1_blits st4 = d1_blits st"
          unfolding ivs using ncov by simp
      qed
      with res show ?thesis by blast
    qed
  qed
qed


subsection \<open>diet.c: one insert, the stored nodes, and runs\<close>

lemma wf1_root [simp]: "wf1 (st\<lparr>d1_root := h\<rparr>) x t = wf1 st x t"
  by (simp add: wf1_def)

lemma ivs1_root [simp]: "ivs1 (st\<lparr>d1_root := h\<rparr>) t = ivs1 st t"
  by (simp add: ivs1_def d1_interval_def)

lemma d1_insert_step:
  assumes "wf1 st (d1_root st) t" "iso_list (ivs1 st t)" "low \<le> high" "d1_len st \<le> N1"
  shows "\<exists>st' t'. d1_insert st low high = Some st' \<and> wf1 st' (d1_root st') t' \<and>
     inserted (ivs1 st t) low high (ivs1 st' t') \<and>
     ({low..high} \<subseteq> cover (ivs1 st t) \<longrightarrow> d1_blits st' = d1_blits st)"
proof -
  from size_le_len [OF assms(1)] assms(4) have cap: "d1_len st + int (size t) < T"
    by (simp add: N1_def T_def)
  from d1_ins [OF assms(1,2,3) cap] obtain x' st1 where
    r: "d1_insert_range st (d1_root st) low high = Some (x', st1)" and i: "ins1 st t low high x' st1"
    by blast
  from i obtain t' where t': "wf1 st1 x' t'" "inserted (ivs1 st t) low high (ivs1 st1 t')"
    "{low..high} \<subseteq> cover (ivs1 st t) \<longrightarrow> d1_blits st1 = d1_blits st"
    by (auto simp: ins1_def)
  from r have "d1_insert st low high = Some (st1\<lparr>d1_root := x'\<rparr>)" by (simp add: d1_insert_def)
  with t' show ?thesis by auto
qed

lemma d1_gather:
  assumes "wf1 st h t" "h \<noteq> T"
  shows "d1_gather_indices st h vs = Some (vs @ preorder t)"
  using assms
proof (induction t arbitrary: h vs)
  case Leaf
  then show ?case by simp
next
  case (Node ta x tb)
  note d = wf1_NodeD [OF Node.prems(1)]
  let ?l = "n1_left (d1_nodes st h)" and ?r = "n1_right (d1_nodes st h)"
  have l: "(if ?l \<noteq> T then d1_gather_indices st ?l (vs @ [h]) else Some (vs @ [h])) = Some ((vs @ [h]) @ preorder ta)"
  proof (cases "?l = T")
    case True
    with d(3) d(1) have "ta = Leaf" by (auto dest: wf1_T)
    with True show ?thesis by simp
  next
    case False
    with Node.IH(1) [OF d(3) [folded d(1)] False, of "vs @ [h]"] show ?thesis by simp
  qed
  have r: "(if ?r \<noteq> T then d1_gather_indices st ?r ((vs @ [h]) @ preorder ta) else Some ((vs @ [h]) @ preorder ta))
     = Some (((vs @ [h]) @ preorder ta) @ preorder tb)"
  proof (cases "?r = T")
    case True
    with d(4) d(1) have "tb = Leaf" by (auto dest: wf1_T)
    with True show ?thesis by simp
  next
    case False
    with Node.IH(2) [OF d(4) [folded d(1)] False, of "(vs @ [h]) @ preorder ta"] show ?thesis by simp
  qed
  show ?case
    using l r d(1) by (subst d1_gather_indices.simps) (auto simp: Let_def split: if_splits)
qed

lemma d1_stored_wf:
  assumes "wf1 st (d1_root st) t"
  shows "d1_stored st = Some (preorder t)"
proof (cases "d1_root st = T")
  case True
  with assms have "t = Leaf" by (auto dest: wf1_T)
  with True show ?thesis by (simp add: d1_stored_def)
next
  case False
  from d1_gather [OF assms False, of "[]"] False show ?thesis by (simp add: d1_stored_def)
qed

text \<open>
  A run of inserts of diet.c from a state that holds an isolated tree: either some
  prefix of the run leaves more than \<open>N\<close> nodes allocated (\<open>new_node\<close> does not check),
  or the run ends within the arena with an isolated tree that covers what was inserted.
\<close>

lemma d1_inserts_run:
  assumes "wf1 st (d1_root st) t" "iso_list (ivs1 st t)" "d1_len st \<le> N1"
    "\<forall>p\<in>set ops. fst p \<le> snd p"
  shows "(\<exists>k s. k \<le> length ops \<and> d1_inserts st (take k ops) = Some s \<and> N1 < d1_len s) \<or>
     (\<exists>st' t'. d1_inserts st ops = Some st' \<and> d1_len st' \<le> N1 \<and> wf1 st' (d1_root st') t' \<and>
        iso_list (ivs1 st' t') \<and> cover (ivs1 st' t') = cover (ivs1 st t) \<union> cover ops)"
  using assms
proof (induction ops arbitrary: st t)
  case Nil
  then show ?case by auto
next
  case (Cons p ops)
  from Cons.prems(4) have p: "fst p \<le> snd p" by simp
  from d1_insert_step [OF Cons.prems(1,2) p Cons.prems(3)]
  obtain st1 t1 where r: "d1_insert st (fst p) (snd p) = Some st1" and w1: "wf1 st1 (d1_root st1) t1"
    and i1: "inserted (ivs1 st t) (fst p) (snd p) (ivs1 st1 t1)" by blast
  from i1 have iso: "iso_list (ivs1 st1 t1)"
    and c: "cover (ivs1 st1 t1) = cover (ivs1 st t) \<union> {fst p..snd p}"
    by (auto simp: inserted_def)
  show ?case
  proof (cases "d1_len st1 \<le> N1")
    case False
    have "d1_inserts st (take 1 (p # ops)) = Some st1" using r by simp
    with False have "\<exists>k s. k \<le> length (p # ops) \<and> d1_inserts st (take k (p # ops)) = Some s \<and> N1 < d1_len s"
      by (intro exI [of _ 1] exI [of _ st1]) simp
    then show ?thesis by blast
  next
    case True
    from Cons.IH [OF w1 iso True] Cons.prems(4)
    have "(\<exists>k s. k \<le> length ops \<and> d1_inserts st1 (take k ops) = Some s \<and> N1 < d1_len s) \<or>
     (\<exists>st' t'. d1_inserts st1 ops = Some st' \<and> d1_len st' \<le> N1 \<and> wf1 st' (d1_root st') t' \<and>
        iso_list (ivs1 st' t') \<and> cover (ivs1 st' t') = cover (ivs1 st1 t1) \<union> cover ops)"
      by simp
    then show ?thesis
    proof
      assume "\<exists>k s. k \<le> length ops \<and> d1_inserts st1 (take k ops) = Some s \<and> N1 < d1_len s"
      then obtain k s where k: "k \<le> length ops" "d1_inserts st1 (take k ops) = Some s" "N1 < d1_len s"
        by blast
      from k(2) r have "d1_inserts st (take (Suc k) (p # ops)) = Some s" by simp
      with k(1,3) have "\<exists>k s. k \<le> length (p # ops) \<and> d1_inserts st (take k (p # ops)) = Some s \<and> N1 < d1_len s"
        by (intro exI [of _ "Suc k"] exI [of _ s]) simp
      then show ?thesis by blast
    next
      assume "\<exists>st' t'. d1_inserts st1 ops = Some st' \<and> d1_len st' \<le> N1 \<and> wf1 st' (d1_root st') t' \<and>
        iso_list (ivs1 st' t') \<and> cover (ivs1 st' t') = cover (ivs1 st1 t1) \<union> cover ops"
      then obtain st' t' where e: "d1_inserts st1 ops = Some st'" "d1_len st' \<le> N1"
        "wf1 st' (d1_root st') t'" "iso_list (ivs1 st' t')"
        "cover (ivs1 st' t') = cover (ivs1 st1 t1) \<union> cover ops" by blast
      from e(1) r have "d1_inserts st (p # ops) = Some st'" by simp
      moreover from e(5) c have "cover (ivs1 st' t') = cover (ivs1 st t) \<union> cover (p # ops)" by auto
      ultimately show ?thesis using e(2,3,4) by blast
    qed
  qed
qed

lemma d1_reach:
  assumes "\<forall>p\<in>set ops. fst p \<le> snd p"
  shows "(\<exists>k s. k \<le> length ops \<and> d1_inserts d1_clear (take k ops) = Some s \<and> N1 < d1_len s) \<or>
     (\<exists>st t. d1_inserts d1_clear ops = Some st \<and> d1_len st \<le> N1 \<and> wf1 st (d1_root st) t \<and>
        iso_list (ivs1 st t) \<and> cover (ivs1 st t) = cover ops)"
proof -
  have w: "wf1 d1_clear (d1_root d1_clear) Leaf" by (simp add: d1_clear_def)
  have i: "iso_list (ivs1 d1_clear Leaf)" by simp
  have l: "d1_len d1_clear \<le> N1" by (simp add: d1_clear_def N1_def)
  from d1_inserts_run [OF w i l assms] show ?thesis by simp
qed

subsection \<open>The stored intervals of a well-formed state\<close>

lemma d3_intervals_wf:
  assumes "wf3 st (d3_root st) t"
  shows "d3_intervals st = Some (preorder t)"
  using d3_stored_wf [OF assms] by (auto simp: d3_intervals_def)

lemma d1_intervals_wf:
  assumes "wf1 st (d1_root st) t"
  shows "d1_intervals st = Some (map (d1_interval st) (preorder t))"
  by (simp add: d1_intervals_def d1_stored_wf [OF assms])

lemma set_d1_intervals: "set (map (d1_interval st) (preorder t)) = set (ivs1 st t)"
  by (simp add: ivs1_def set_preorder)

lemma cover_set: "set xs = set ys \<Longrightarrow> cover xs = cover ys"
  by (simp add: cover_def)


lemma d3_isolated:
  assumes "wf3 st (d3_root st) t" "iso_list (inorder t)"
  shows "\<exists>hs. d3_stored st = Some hs \<and> distinct hs \<and>
     (\<forall>x\<in>set hs. \<forall>y\<in>set hs. x \<noteq> y \<longrightarrow> \<not> d3_overlapping_or_adjacent st x y)"
proof -
  from d3_stored_wf [OF assms(1)] obtain hs where
    hs: "d3_stored st = Some hs" "map (d3_interval st) hs = preorder t" by blast
  let ?R = "\<lambda>a b. \<not> (fst a \<le> snd b + 1 \<and> fst b \<le> snd a + 1)"
  let ?S = "\<lambda>x y. \<not> d3_overlapping_or_adjacent st x y"
  have "sorted_wrt ?R (preorder t)"
    by (rule sorted_wrt_preorder [OF _ iso_list_apart [OF assms(2)]]) auto
  with hs(2) have "sorted_wrt ?R (map (d3_interval st) hs)" by simp
  then have s: "sorted_wrt ?S hs"
    by (simp add: sorted_wrt_map d3_overlapping_or_adjacent_def d3_interval_def Let_def)
  have irr: "\<forall>x\<in>set hs. \<not> ?S x x"
  proof
    fix x assume "x \<in> set hs"
    then have "d3_interval st x \<in> set (map (d3_interval st) hs)" by simp
    with hs(2) have "d3_interval st x \<in> set (inorder t)" by (simp add: set_preorder)
    with assms(2) have "fst (d3_interval st x) \<le> snd (d3_interval st x)"
      by (auto simp: iso_list_def)
    then show "\<not> ?S x x"
      by (simp add: d3_overlapping_or_adjacent_def d3_interval_def Let_def)
  qed
  have sym: "\<And>a b. ?S a b \<Longrightarrow> ?S b a"
    by (auto simp: d3_overlapping_or_adjacent_def Let_def)
  from sorted_wrt_pairs [of ?S, OF sym s irr] hs(1) show ?thesis by blast
qed

lemma d1_isolated:
  assumes "wf1 st (d1_root st) t" "iso_list (ivs1 st t)"
  shows "d1_stored st = Some (preorder t) \<and> distinct (preorder t) \<and>
     (\<forall>x\<in>set (preorder t). \<forall>y\<in>set (preorder t). x \<noteq> y \<longrightarrow> \<not> d1_overlapping_or_adjacent st x y)"
proof -
  let ?R = "\<lambda>a b. \<not> (fst a \<le> snd b + 1 \<and> fst b \<le> snd a + 1)"
  let ?S = "\<lambda>x y. \<not> d1_overlapping_or_adjacent st x y"
  from iso_list_apart [OF assms(2)] have "sorted_wrt ?S (inorder t)"
    by (simp add: ivs1_def sorted_wrt_map d1_overlapping_or_adjacent_def d1_interval_def Let_def)
  moreover have sym: "\<And>a b. ?S a b \<Longrightarrow> ?S b a"
    by (auto simp: d1_overlapping_or_adjacent_def Let_def)
  ultimately have s: "sorted_wrt ?S (preorder t)" by (rule sorted_wrt_preorder [rotated])
  have irr: "\<forall>x\<in>set (preorder t). \<not> ?S x x"
  proof
    fix x assume "x \<in> set (preorder t)"
    then have "d1_interval st x \<in> set (ivs1 st t)" by (simp add: set_preorder ivs1_def)
    with assms(2) have "fst (d1_interval st x) \<le> snd (d1_interval st x)"
      by (auto simp: iso_list_def)
    then show "\<not> ?S x x"
      by (simp add: d1_overlapping_or_adjacent_def d1_interval_def Let_def)
  qed
  from sorted_wrt_pairs [of ?S, OF sym s irr] d1_stored_wf [OF assms(1)] show ?thesis by blast
qed

lemma d1_overflows_list:
  "d1_overflows ops \<longleftrightarrow>
     list_ex (\<lambda>k. case d1_inserts d1_clear (take k ops) of Some s \<Rightarrow> N1 < d1_len s | None \<Rightarrow> False)
       [0..<Suc (length ops)]"
proof -
  let ?Q = "\<lambda>k. case d1_inserts d1_clear (take k ops) of Some s \<Rightarrow> N1 < d1_len s | None \<Rightarrow> False"
  have q: "?Q k \<longleftrightarrow> (\<exists>s. d1_inserts d1_clear (take k ops) = Some s \<and> N1 < d1_len s)" for k
    by (simp split: option.splits)
  have "list_ex ?Q [0..<Suc (length ops)] \<longleftrightarrow> (\<exists>k. k \<le> length ops \<and> ?Q k)"
    unfolding list_ex_iff set_upt Bex_def atLeastLessThan_iff by (simp add: less_Suc_eq_le)
  then show ?thesis unfolding d1_overflows_def q by blast
qed

lemma d1_reach':
  assumes "\<forall>p\<in>set ops. fst p \<le> snd p"
  shows "d1_overflows ops \<or>
     (\<exists>st t. d1_inserts d1_clear ops = Some st \<and> d1_len st \<le> N1 \<and> wf1 st (d1_root st) t \<and>
        iso_list (ivs1 st t) \<and> cover (ivs1 st t) = cover ops)"
  using d1_reach [OF assms] unfolding d1_overflows_def .


lemma iso_list_pair:
  assumes "iso_list xs" "a \<in> set xs" "b \<in> set xs"
  shows "a = b \<or> snd a + 1 < fst b \<or> snd b + 1 < fst a"
proof -
  from assms(1) have "sorted_wrt (\<lambda>x y. snd x + 1 < fst y) xs" by (simp add: iso_list_def)
  then show ?thesis using assms(2,3)
    by (induction xs) auto
qed

text \<open>
  In an isolated list a non-empty range is covered exactly when it lies inside one of
  the intervals.
\<close>

lemma covered_inside:
  assumes "iso_list xs" "lo \<le> hi" "{lo..hi} \<subseteq> cover xs"
  shows "\<exists>iv\<in>set xs. fst iv \<le> lo \<and> hi \<le> snd iv"
proof -
  from assms(2,3) have "lo \<in> cover xs" by auto
  then obtain a where a: "a \<in> set xs" "fst a \<le> lo" "lo \<le> snd a" by (auto simp: cover_iff)
  have "hi \<le> snd a"
  proof (rule ccontr)
    assume "\<not> hi \<le> snd a"
    with a(3) have "snd a + 1 \<in> {lo..hi}" by simp
    with assms(3) have "snd a + 1 \<in> cover xs" by blast
    then obtain b where b: "b \<in> set xs" "fst b \<le> snd a + 1" "snd a + 1 \<le> snd b"
      by (auto simp: cover_iff)
    from iso_list_pair [OF assms(1) a(1) b(1)] a b show False by auto
  qed
  with a show ?thesis by blast
qed


lemma d3_idem_step:
  assumes "wf3 st (d3_root st) t" "iso_list (inorder t)" "lo \<le> hi" "{lo..hi} \<subseteq> cover (inorder t)"
  shows "\<exists>r. d3_insert st lo hi = Some r \<and>
     (r = Inl AssertionFailed \<or>
      (\<exists>st' ivs'. r = Inr st' \<and> d3_blits st' = d3_blits st \<and> d3_intervals st' = Some ivs' \<and>
         set ivs' = set (inorder t)))"
proof -
  from covered_inside [OF assms(2,3,4)]
  have ins: "\<exists>iv\<in>set (inorder t). fst iv \<le> lo \<and> hi \<le> snd iv" .
  from d3_insert_step [OF assms(1,2,3)] obtain r where r: "d3_insert st lo hi = Some r" and
    d: "r = Inl AssertionFailed \<or>
      (\<exists>st' ys. r = Inr st' \<and> stores3 st' (d3_root st') ys \<and> inserted (inorder t) lo hi ys \<and>
         (\<exists>bs. d3_blits st' = d3_blits st @ bs \<and>
            (bs = [] \<longleftrightarrow> (\<exists>iv\<in>set (inorder t). fst iv \<le> lo \<and> hi \<le> snd iv))))"
    by blast
  from d show ?thesis
  proof
    assume "r = Inl AssertionFailed"
    with r show ?thesis by blast
  next
    assume "\<exists>st' ys. r = Inr st' \<and> stores3 st' (d3_root st') ys \<and> inserted (inorder t) lo hi ys \<and>
         (\<exists>bs. d3_blits st' = d3_blits st @ bs \<and>
            (bs = [] \<longleftrightarrow> (\<exists>iv\<in>set (inorder t). fst iv \<le> lo \<and> hi \<le> snd iv)))"
    then obtain st' ys bs where s: "r = Inr st'" "stores3 st' (d3_root st') ys"
      "inserted (inorder t) lo hi ys" "d3_blits st' = d3_blits st @ bs"
      "bs = [] \<longleftrightarrow> (\<exists>iv\<in>set (inorder t). fst iv \<le> lo \<and> hi \<le> snd iv)" by blast
    from s(3) assms(4) have ys: "ys = inorder t" by (simp add: inserted_def)
    from s(2) obtain t' where t': "wf3 st' (d3_root st') t'" "inorder t' = ys"
      by (auto simp: stores3_def)
    from s(4,5) ins have "d3_blits st' = d3_blits st" by simp
    moreover have "d3_intervals st' = Some (preorder t')" by (rule d3_intervals_wf [OF t'(1)])
    moreover have "set (preorder t') = set (inorder t)" using t'(2) ys by (simp add: set_preorder)
    ultimately show ?thesis using r s(1) by blast
  qed
qed

lemma d1_idem_step:
  assumes "wf1 st (d1_root st) t" "iso_list (ivs1 st t)" "lo \<le> hi" "d1_len st \<le> N1"
    "{lo..hi} \<subseteq> cover (ivs1 st t)"
  shows "\<exists>st' ivs'. d1_insert st lo hi = Some st' \<and> d1_blits st' = d1_blits st \<and>
     d1_intervals st' = Some ivs' \<and> set ivs' = set (ivs1 st t)"
proof -
  from d1_insert_step [OF assms(1,2,3,4)] obtain st' t' where
    s: "d1_insert st lo hi = Some st'" "wf1 st' (d1_root st') t'"
    "inserted (ivs1 st t) lo hi (ivs1 st' t')"
    "{lo..hi} \<subseteq> cover (ivs1 st t) \<longrightarrow> d1_blits st' = d1_blits st" by blast
  from s(3) assms(5) have "ivs1 st' t' = ivs1 st t" by (simp add: inserted_def)
  with set_d1_intervals [of st' t']
  have "set (map (d1_interval st') (preorder t')) = set (ivs1 st t)" by (simp only:)
  with s(1,4) assms(5) d1_intervals_wf [OF s(2)] show ?thesis by blast
qed

section \<open>The claims\<close>

text \<open>
  C1 (blit fidelity).  The claim: during each \<open>insert(lo, hi)\<close> the union of the ranges
  passed to \<open>blit\<close> is exactly the set of integers of \<open>[lo, hi]\<close> that were absent
  before the call, in both DIET variants.  Both programs break it, and both check it
  themselves (\<open>check_masks\<close> asserts that the mask written by \<open>blit\<close> equals the test
  mask).  diet3.c: after \<open>insert(2,2); insert(4,4)\<close>, \<open>insert(1,3)\<close> calls \<open>blit(1,3)\<close>,
  which covers the stored 2.  diet.c: after \<open>insert(1,1)\<close>, \<open>insert(1,2)\<close> calls only
  \<open>blit(1,0)\<close>, an empty range, so the absent 2 is never reported.
\<close>

theorem blit_fidelity_failing_inputs:
  "d3_intervals_after [(2, 2), (4, 4)] = Some [(4, 4), (2, 2)] \<and>
   d3_emitted_after [(2, 2), (4, 4)] 1 3 = ok [(1, 3)] \<and>
   cover [(1, 3)] \<noteq> {1..3} - cover [(4, 4), (2, 2)] \<and>
   d1_intervals_after [(1, 1)] = Some [(1, 1)] \<and>
   d1_emitted_after [(1, 1)] 1 2 = Some [(1, 0)] \<and>
   cover [(1, 0)] \<noteq> {1..2} - cover [(1, 1)]"
proof -
  have 1: "d3_intervals_after [(2, 2), (4, 4)] = Some [(4, 4), (2, 2)]" by code_simp
  have 2: "d3_emitted_after [(2, 2), (4, 4)] 1 3 = ok [(1, 3)]" by code_simp
  have "(2::int) \<in> cover [(1, 3)]" "(2::int) \<notin> {1..3} - cover [(4, 4), (2, 2)]"
    by (simp_all add: cover_def)
  then have 3: "cover [(1, 3)] \<noteq> {1..3} - cover [(4, 4), (2, 2)]" by blast
  have 4: "d1_intervals_after [(1, 1)] = Some [(1, 1)]" by code_simp
  have 5: "d1_emitted_after [(1, 1)] 1 2 = Some [(1, 0)]" by code_simp
  have "(2::int) \<notin> cover [(1, 0)]" "(2::int) \<in> {1..2} - cover [(1, 1)]"
    by (simp_all add: cover_def)
  then have 6: "cover [(1, 0)] \<noteq> {1..2} - cover [(1, 1)]" by blast
  from 1 2 3 4 5 6 show ?thesis by blast
qed

text \<open>
  C2 (isolation).  After any sequence of inserts \<open>(lo, hi)\<close> with \<open>lo \<le> hi\<close> from the
  empty tree, the nodes that \<open>gather_indices\<close> collects from the root are pairwise
  different and no two of them are overlapping or adjacent, as \<open>check_isolation\<close>
  asserts.  The run of diet3.c ends, in the capacity assertion or in such a state; the
  run of diet.c ends in such a state unless it overflows the arena.
\<close>

theorem isolation:
  assumes "\<forall>p\<in>set ops. fst p \<le> snd p"
  shows "(\<exists>r. d3_inserts d3_clear ops = Some r \<and>
            (r = Inl AssertionFailed \<or>
             (\<exists>st hs. r = Inr st \<and> d3_stored st = Some hs \<and> distinct hs \<and>
                (\<forall>x\<in>set hs. \<forall>y\<in>set hs. x \<noteq> y \<longrightarrow> \<not> d3_overlapping_or_adjacent st x y)))) \<and>
         (d1_overflows ops \<or>
          (\<exists>st hs. d1_inserts d1_clear ops = Some st \<and> d1_stored st = Some hs \<and> distinct hs \<and>
             (\<forall>x\<in>set hs. \<forall>y\<in>set hs. x \<noteq> y \<longrightarrow> \<not> d1_overlapping_or_adjacent st x y)))"
proof
  from d3_reach [OF assms] obtain r where r: "d3_inserts d3_clear ops = Some r" and
    d: "r = Inl AssertionFailed \<or>
      (\<exists>st t. r = Inr st \<and> wf3 st (d3_root st) t \<and> iso_list (inorder t) \<and>
         cover (inorder t) = cover ops)" by blast
  from d have "r = Inl AssertionFailed \<or>
             (\<exists>st hs. r = Inr st \<and> d3_stored st = Some hs \<and> distinct hs \<and>
                (\<forall>x\<in>set hs. \<forall>y\<in>set hs. x \<noteq> y \<longrightarrow> \<not> d3_overlapping_or_adjacent st x y))"
    using d3_isolated by blast
  with r show "\<exists>r. d3_inserts d3_clear ops = Some r \<and>
            (r = Inl AssertionFailed \<or>
             (\<exists>st hs. r = Inr st \<and> d3_stored st = Some hs \<and> distinct hs \<and>
                (\<forall>x\<in>set hs. \<forall>y\<in>set hs. x \<noteq> y \<longrightarrow> \<not> d3_overlapping_or_adjacent st x y)))"
    by blast
next
  from d1_reach' [OF assms] d1_isolated
  show "d1_overflows ops \<or>
          (\<exists>st hs. d1_inserts d1_clear ops = Some st \<and> d1_stored st = Some hs \<and> distinct hs \<and>
             (\<forall>x\<in>set hs. \<forall>y\<in>set hs. x \<noteq> y \<longrightarrow> \<not> d1_overlapping_or_adjacent st x y))"
    by blast
qed

theorem isolation_witness:
  "(\<exists>st. d3_inserts d3_clear [(5, 6), (1, 2)] = ok st \<and> d3_stored st = Some [3, 2] \<and>
      \<not> d3_overlapping_or_adjacent st 3 2) \<and>
   (\<exists>st. d1_inserts d1_clear [(5, 6), (1, 2)] = Some st \<and> d1_stored st = Some [0, 1] \<and>
      \<not> d1_overlapping_or_adjacent st 0 1)"
proof -
  let ?ops = "[(5, 6), (1, 2)] :: (int \<times> int) list"
  have v: "\<forall>p\<in>set ?ops. fst p \<le> snd p" by simp
  have e3: "(case d3_inserts d3_clear ?ops of Some (Inr st) \<Rightarrow> d3_stored st = Some [3, 2] | _ \<Rightarrow> False)"
    by code_simp
  have e1: "(case d1_inserts d1_clear ?ops of Some st \<Rightarrow> d1_stored st = Some [0, 1] | _ \<Rightarrow> False)"
    by code_simp
  have no: "\<not> d1_overflows ?ops" unfolding d1_overflows_list by code_simp
  from isolation [OF v] no have
    a: "\<exists>r. d3_inserts d3_clear ?ops = Some r \<and>
            (r = Inl AssertionFailed \<or>
             (\<exists>st hs. r = Inr st \<and> d3_stored st = Some hs \<and> distinct hs \<and>
                (\<forall>x\<in>set hs. \<forall>y\<in>set hs. x \<noteq> y \<longrightarrow> \<not> d3_overlapping_or_adjacent st x y)))" and
    b: "\<exists>st hs. d1_inserts d1_clear ?ops = Some st \<and> d1_stored st = Some hs \<and> distinct hs \<and>
             (\<forall>x\<in>set hs. \<forall>y\<in>set hs. x \<noteq> y \<longrightarrow> \<not> d1_overlapping_or_adjacent st x y)"
    by blast+
  from a e3 have "\<exists>st. d3_inserts d3_clear ?ops = ok st \<and> d3_stored st = Some [3, 2] \<and>
      \<not> d3_overlapping_or_adjacent st 3 2"
    by (auto simp: ok_def)
  moreover from b e1 have "\<exists>st. d1_inserts d1_clear ?ops = Some st \<and> d1_stored st = Some [0, 1] \<and>
      \<not> d1_overlapping_or_adjacent st 0 1"
    by auto
  ultimately show ?thesis by blast
qed



text \<open>
  C4 (scenario E5).  From the empty DIET, \<open>insert(10,11)\<close> then \<open>insert(9,12)\<close>: both
  variants end with the single interval \<open>[9,12]\<close>.  diet3.c calls \<open>blit(9,9)\<close> and
  \<open>blit(12,12)\<close>, as the claim says; diet.c calls only \<open>blit(9,9)\<close> and misses 12.
\<close>

theorem E5_adjacent_merge:
  "d3_intervals_after [(10, 11), (9, 12)] = Some [(9, 12)] \<and>
   d3_emitted_after [(10, 11)] 9 12 = ok [(9, 9), (12, 12)] \<and>
   d1_intervals_after [(10, 11), (9, 12)] = Some [(9, 12)] \<and>
   d1_emitted_after [(10, 11)] 9 12 = Some [(9, 9)] \<and>
   cover [(9, 9)] \<noteq> {9, 12}"
proof -
  have 1: "d3_intervals_after [(10, 11), (9, 12)] = Some [(9, 12)]" by code_simp
  have 2: "d3_emitted_after [(10, 11)] 9 12 = ok [(9, 9), (12, 12)]" by code_simp
  have 3: "d1_intervals_after [(10, 11), (9, 12)] = Some [(9, 12)]" by code_simp
  have 4: "d1_emitted_after [(10, 11)] 9 12 = Some [(9, 9)]" by code_simp
  have "(12::int) \<notin> cover [(9, 9)]" by (simp add: cover_def)
  then have 5: "cover [(9, 9)] \<noteq> {9, 12}" by blast
  from 1 2 3 4 5 show ?thesis by blast
qed

text \<open>
  C5 (idempotence).  On the tree built by any sequence of inserts, inserting a range
  \<open>[lo, hi]\<close> that the stored intervals cover already makes no \<open>blit\<close> call at all and
  leaves the set of stored intervals as it was, in both variants.  diet3.c copies the
  nodes on the path even then, so with the arena nearly full the call can stop in the
  capacity assertion instead.
\<close>

theorem idempotence:
  assumes "\<forall>p\<in>set ops. fst p \<le> snd p" "lo \<le> hi"
  shows "(\<exists>r. d3_inserts d3_clear ops = Some r \<and>
            (r = Inl AssertionFailed \<or>
             (\<exists>st ivs. r = Inr st \<and> d3_intervals st = Some ivs \<and>
                ({lo..hi} \<subseteq> cover ivs \<longrightarrow>
                   (\<exists>r'. d3_insert st lo hi = Some r' \<and>
                      (r' = Inl AssertionFailed \<or>
                       (\<exists>st' ivs'. r' = Inr st' \<and> d3_blits st' = d3_blits st \<and>
                          d3_intervals st' = Some ivs' \<and> set ivs' = set ivs))))))) \<and>
         (d1_overflows ops \<or>
          (\<exists>st ivs. d1_inserts d1_clear ops = Some st \<and> d1_intervals st = Some ivs \<and>
             ({lo..hi} \<subseteq> cover ivs \<longrightarrow>
                (\<exists>st' ivs'. d1_insert st lo hi = Some st' \<and> d1_blits st' = d1_blits st \<and>
                   d1_intervals st' = Some ivs' \<and> set ivs' = set ivs))))"
proof
  from d3_reach [OF assms(1)] obtain r where r: "d3_inserts d3_clear ops = Some r" and
    d: "r = Inl AssertionFailed \<or>
      (\<exists>st t. r = Inr st \<and> wf3 st (d3_root st) t \<and> iso_list (inorder t) \<and>
         cover (inorder t) = cover ops)" by blast
  from d have "r = Inl AssertionFailed \<or>
             (\<exists>st ivs. r = Inr st \<and> d3_intervals st = Some ivs \<and>
                ({lo..hi} \<subseteq> cover ivs \<longrightarrow>
                   (\<exists>r'. d3_insert st lo hi = Some r' \<and>
                      (r' = Inl AssertionFailed \<or>
                       (\<exists>st' ivs'. r' = Inr st' \<and> d3_blits st' = d3_blits st \<and>
                          d3_intervals st' = Some ivs' \<and> set ivs' = set ivs)))))"
  proof
    assume "r = Inl AssertionFailed"
    then show ?thesis ..
  next
    assume "\<exists>st t. r = Inr st \<and> wf3 st (d3_root st) t \<and> iso_list (inorder t) \<and>
         cover (inorder t) = cover ops"
    then obtain st t where s: "r = Inr st" "wf3 st (d3_root st) t" "iso_list (inorder t)" by blast
    have i: "d3_intervals st = Some (preorder t)" by (rule d3_intervals_wf [OF s(2)])
    have "\<exists>r'. d3_insert st lo hi = Some r' \<and>
                      (r' = Inl AssertionFailed \<or>
                       (\<exists>st' ivs'. r' = Inr st' \<and> d3_blits st' = d3_blits st \<and>
                          d3_intervals st' = Some ivs' \<and> set ivs' = set (preorder t)))"
      if "{lo..hi} \<subseteq> cover (preorder t)"
      using d3_idem_step [OF s(2,3) assms(2)] that by (simp add: cover_preorder set_preorder)
    with s(1) i show ?thesis by blast
  qed
  with r show "\<exists>r. d3_inserts d3_clear ops = Some r \<and>
            (r = Inl AssertionFailed \<or>
             (\<exists>st ivs. r = Inr st \<and> d3_intervals st = Some ivs \<and>
                ({lo..hi} \<subseteq> cover ivs \<longrightarrow>
                   (\<exists>r'. d3_insert st lo hi = Some r' \<and>
                      (r' = Inl AssertionFailed \<or>
                       (\<exists>st' ivs'. r' = Inr st' \<and> d3_blits st' = d3_blits st \<and>
                          d3_intervals st' = Some ivs' \<and> set ivs' = set ivs))))))"
    by blast
next
  from d1_reach' [OF assms(1)] show "d1_overflows ops \<or>
          (\<exists>st ivs. d1_inserts d1_clear ops = Some st \<and> d1_intervals st = Some ivs \<and>
             ({lo..hi} \<subseteq> cover ivs \<longrightarrow>
                (\<exists>st' ivs'. d1_insert st lo hi = Some st' \<and> d1_blits st' = d1_blits st \<and>
                   d1_intervals st' = Some ivs' \<and> set ivs' = set ivs)))"
  proof
    assume "d1_overflows ops"
    then show ?thesis ..
  next
    assume "\<exists>st t. d1_inserts d1_clear ops = Some st \<and> d1_len st \<le> N1 \<and> wf1 st (d1_root st) t \<and>
        iso_list (ivs1 st t) \<and> cover (ivs1 st t) = cover ops"
    then obtain st t where s: "d1_inserts d1_clear ops = Some st" "d1_len st \<le> N1"
      "wf1 st (d1_root st) t" "iso_list (ivs1 st t)" by blast
    let ?ivs = "map (d1_interval st) (preorder t)"
    have i: "d1_intervals st = Some ?ivs" by (rule d1_intervals_wf [OF s(3)])
    have e: "set ?ivs = set (ivs1 st t)" by (rule set_d1_intervals)
    have "\<exists>st' ivs'. d1_insert st lo hi = Some st' \<and> d1_blits st' = d1_blits st \<and>
                   d1_intervals st' = Some ivs' \<and> set ivs' = set ?ivs"
      if "{lo..hi} \<subseteq> cover ?ivs"
    proof -
      from that cover_set [OF e] have "{lo..hi} \<subseteq> cover (ivs1 st t)" by simp
      from d1_idem_step [OF s(3,4) assms(2) s(2) this] e show ?thesis by simp
    qed
    with s(1) i show ?thesis by blast
  qed
qed

theorem idempotence_witness:
  "(\<exists>st st'. d3_inserts d3_clear [(5, 6), (1, 2)] = ok st \<and> d3_insert st 5 6 = ok st' \<and>
      d3_blits st' = d3_blits st \<and> d3_intervals st = Some [(1, 2), (5, 6)] \<and>
      d3_intervals st' = Some [(5, 6), (1, 2)]) \<and>
   (\<exists>st st'. d1_inserts d1_clear [(5, 6), (1, 2)] = Some st \<and> d1_insert st 5 6 = Some st' \<and>
      d1_blits st' = d1_blits st \<and> d1_intervals st' = Some [(5, 6), (1, 2)])"
proof -
  let ?ops = "[(5, 6), (1, 2)] :: (int \<times> int) list"
  have v: "\<forall>p\<in>set ?ops. fst p \<le> snd p" "(5::int) \<le> 6" by simp_all
  have e3: "(case d3_inserts d3_clear ?ops of
       Some (Inr st) \<Rightarrow> d3_intervals st = Some [(1, 2), (5, 6)] \<and>
         (case d3_insert st 5 6 of Some (Inr st') \<Rightarrow> d3_intervals st' = Some [(5, 6), (1, 2)] | _ \<Rightarrow> False)
     | _ \<Rightarrow> False)"
    by code_simp
  have e1: "(case d1_inserts d1_clear ?ops of
       Some st \<Rightarrow> d1_intervals st = Some [(5, 6), (1, 2)] \<and>
         (case d1_insert st 5 6 of Some st' \<Rightarrow> d1_intervals st' = Some [(5, 6), (1, 2)] | _ \<Rightarrow> False)
     | _ \<Rightarrow> False)"
    by code_simp
  have no: "\<not> d1_overflows ?ops" unfolding d1_overflows_list by code_simp
  have c: "{5..6} \<subseteq> cover [(1, 2), (5, 6 :: int)]" "{5..6} \<subseteq> cover [(5, 6), (1, 2 :: int)]"
    by simp_all
  note t = idempotence [OF v]
  from t e3 c(1) have "\<exists>st st'. d3_inserts d3_clear ?ops = ok st \<and> d3_insert st 5 6 = ok st' \<and>
      d3_blits st' = d3_blits st \<and> d3_intervals st = Some [(1, 2), (5, 6)] \<and>
      d3_intervals st' = Some [(5, 6), (1, 2)]"
    by (auto simp: ok_def)
  moreover from t no e1 c(2) have "\<exists>st st'. d1_inserts d1_clear ?ops = Some st \<and>
      d1_insert st 5 6 = Some st' \<and> d1_blits st' = d1_blits st \<and>
      d1_intervals st' = Some [(5, 6), (1, 2)]"
    by auto
  ultimately show ?thesis by blast
qed

text \<open>
  C8 (capacity).  The claim: an insert on a full arena fails fast by an assertion in each
  of the three programs.  Only diet3.c asserts (\<open>assert(n < N)\<close> in \<open>new_node\<close>): there an
  \<open>insert\<close> on a full arena can only end in the failed assertion.  \<open>new_node\<close> of diet.c
  and \<open>insert\<close> of avl\_tree\_ref.c do \<open>n = len++\<close> and write \<open>nodes[n]\<close> unchecked: on a
  full arena the record lands at index \<open>N\<close>, one past the array.
\<close>

theorem arena_full_allocation:
  "(N3 \<le> d3_len s3 \<and> d3_insert s3 a b = Some r3 \<longrightarrow> r3 = Inl AssertionFailed) \<and>
   (d1_len s1 = N1 \<longrightarrow>
      fst (d1_new_node s1 a b l r) = N1 \<and>
      d1_nodes (snd (d1_new_node s1 a b l r)) N1 =
        \<lparr>n1_low = a, n1_high = b, n1_left = l, n1_right = r\<rparr>) \<and>
   (a_len sa = NA \<and> a_insert sa a b = Some sa' \<longrightarrow>
      a_low (a_nodes sa' NA) = a \<and> a_high (a_nodes sa' NA) = b)"
proof -
  have 1: "r3 = Inl AssertionFailed" if "N3 \<le> d3_len s3 \<and> d3_insert s3 a b = Some r3"
    using that d3_insert_full by blast
  have 2: "fst (d1_new_node s1 a b l r) = N1 \<and>
      d1_nodes (snd (d1_new_node s1 a b l r)) N1 =
        \<lparr>n1_low = a, n1_high = b, n1_left = l, n1_right = r\<rparr>" if "d1_len s1 = N1"
    using that by (simp add: d1_new_node_def Let_def)
  have 3: "a_low (a_nodes sa' NA) = a \<and> a_high (a_nodes sa' NA) = b"
    if "a_len sa = NA \<and> a_insert sa a b = Some sa'"
    using that a_insert_frame [of sa a b sa'] by simp
  from 1 2 3 show ?thesis by blast
qed

theorem arena_full_allocation_witness:
  "(\<exists>r3. d3_insert (d3_one\<lparr>d3_len := N3\<rparr>) 7 8 = Some r3 \<and> r3 = Inl AssertionFailed) \<and>
   fst (d1_new_node (d1_one\<lparr>d1_len := N1\<rparr>) 7 8 T T) = N1 \<and>
   n1_low (d1_nodes (snd (d1_new_node (d1_one\<lparr>d1_len := N1\<rparr>) 7 8 T T)) N1) = 7 \<and>
   (\<exists>sa'. a_insert (a_one\<lparr>a_len := NA\<rparr>) 7 8 = Some sa' \<and> a_low (a_nodes sa' NA) = 7)"
proof -
  have "(case d3_insert (d3_one\<lparr>d3_len := N3\<rparr>) 7 8 of None \<Rightarrow> False | Some _ \<Rightarrow> True)"
    by code_simp
  then obtain r3 where 1: "d3_insert (d3_one\<lparr>d3_len := N3\<rparr>) 7 8 = Some r3"
    by (cases "d3_insert (d3_one\<lparr>d3_len := N3\<rparr>) 7 8") simp_all
  have "(case a_insert (a_one\<lparr>a_len := NA\<rparr>) 7 8 of None \<Rightarrow> False | Some _ \<Rightarrow> True)"
    by code_simp
  then obtain sa' where 3: "a_insert (a_one\<lparr>a_len := NA\<rparr>) 7 8 = Some sa'"
    by (cases "a_insert (a_one\<lparr>a_len := NA\<rparr>) 7 8") simp_all
  have 2: "d1_len (d1_one\<lparr>d1_len := N1\<rparr>) = N1" "N3 \<le> d3_len (d3_one\<lparr>d3_len := N3\<rparr>)"
    "a_len (a_one\<lparr>a_len := NA\<rparr>) = NA" by simp_all
  from arena_full_allocation [of "d3_one\<lparr>d3_len := N3\<rparr>" 7 8 r3
      "d1_one\<lparr>d1_len := N1\<rparr>" T T "a_one\<lparr>a_len := NA\<rparr>" sa'] 1 2 3
  show ?thesis by simp
qed




text \<open>
  C10 (frame of the AVL insert).  \<open>insert(low, high)\<close> appends exactly one node, at
  index \<open>len\<close>, carrying the inserted interval, and leaves \<open>low\<close> and \<open>high\<close> of every
  other node as they were: the rotations and \<open>balance\<close> write only \<open>left\<close>, \<open>right\<close>,
  \<open>parent\<close>, \<open>height\<close> and \<open>max\<close>.
\<close>

theorem insert_frame:
  assumes "a_insert st low high = Some st'"
  shows "a_len st' = i16 (a_len st + 1) \<and>
     a_low (a_nodes st' (a_len st)) = low \<and> a_high (a_nodes st' (a_len st)) = high \<and>
     (\<forall>i. i \<noteq> a_len st \<longrightarrow>
        a_low (a_nodes st' i) = a_low (a_nodes st i) \<and> a_high (a_nodes st' i) = a_high (a_nodes st i))"
  using assms by (rule a_insert_frame)

theorem insert_frame_witness:
  "\<exists>st'. a_insert a_one 5 6 = Some st' \<and> a_len st' = 2 \<and>
     a_low (a_nodes st' 1) = 5 \<and> a_high (a_nodes st' 1) = 6 \<and>
     a_low (a_nodes st' 0) = 3 \<and> a_high (a_nodes st' 0) = 7"
proof -
  have "(case a_insert a_one 5 6 of None \<Rightarrow> False | Some _ \<Rightarrow> True)" by code_simp
  then obtain st' where h: "a_insert a_one 5 6 = Some st'"
    by (cases "a_insert a_one 5 6") simp_all
  from insert_frame [OF h] have "a_len st' = 2 \<and>
     a_low (a_nodes st' 1) = 5 \<and> a_high (a_nodes st' 1) = 6 \<and>
     a_low (a_nodes st' 0) = 3 \<and> a_high (a_nodes st' 0) = 7"
    by (simp add: a_one_def a_empty_def i16_def)
  with h show ?thesis by blast
qed

end
